theory Spec2Isabelle
  imports Main "HOL-Library.AList" "HOL-Library.Multiset" "HOL-Library.Extended_Nat"
begin

chapter \<open>The chunking and stitching core of roth-vectors\<close>

text \<open>
  A shallow embedding of three source files of the repository:
  \<^item> \<^verbatim>\<open>src/cleanse/chunkUtils.ts\<close>: \<^verbatim>\<open>splitIntoChunks\<close> and \<^verbatim>\<open>countTokens\<close>;
  \<^item> \<^verbatim>\<open>src/llm/stich.ts\<close>: the chunk-set stitcher (\<^verbatim>\<open>main\<close>);
  \<^item> \<^verbatim>\<open>src/finetune/stitchCleaned.ts\<close>: the cleaned-chunk re-indexer (\<^verbatim>\<open>main\<close>).

  A JavaScript string is a \<^typ>\<open>string\<close>: one \<^typ>\<open>char\<close> per code unit, for the code
  units below 256. The parameters of the chunker and the positions in arrays are
  \<^typ>\<open>int\<close> or \<^typ>\<open>nat\<close> (fractions and \<^verbatim>\<open>NaN\<close> are outside the model); a chunk index
  read from a file name is the Number \<^verbatim>\<open>parseInt\<close> returns, rounded above \<open>2^53\<close> and
  \<^verbatim>\<open>Infinity\<close> when too large: an \<^typ>\<open>enat\<close>.
\<close>

section \<open>Definitions\<close>

subsection \<open>\<^verbatim>\<open>chunkUtils.ts\<close>: tokens\<close>

text \<open>
  The regular expression class \<^verbatim>\<open>\s\<close> on code units below 256: tab, line feed, vertical
  tab, form feed, carriage return, space and the no-break space.
\<close>

definition is_space :: "char \<Rightarrow> bool" where
  "is_space c = (let n = (of_char c :: nat) in (9 \<le> n \<and> n \<le> 13) \<or> n = 32 \<or> n = 160)"

text \<open>
  \<^verbatim>\<open>text.split(/\s+/)\<close>: the pieces between the maximal runs of white space. A text
  that starts or ends with white space yields an empty first or last piece, and the empty
  text yields the one empty piece.
\<close>

fun split_ws :: "string \<Rightarrow> string list" where
  "split_ws [] = [[]]"
| "split_ws (c # cs) =
     (if is_space c then
        (case cs of
           [] \<Rightarrow> [] # split_ws cs
         | d # ds \<Rightarrow> if is_space d then split_ws cs else [] # split_ws cs)
      else
        (case split_ws cs of
           [] \<Rightarrow> [[c]]
         | p # ps \<Rightarrow> (c # p) # ps))"

text \<open>\<^verbatim>\<open>text.split(/\s+/).filter((token) => token.length > 0)\<close>\<close>

definition tokenize :: "string \<Rightarrow> string list" where
  "tokenize text = filter (\<lambda>token. length token > 0) (split_ws text)"

text \<open>\<^verbatim>\<open>Array.prototype.join(" ")\<close>\<close>

fun join :: "string list \<Rightarrow> string" where
  "join [] = []"
| "join [x] = x"
| "join (x # y # ys) = x @ CHR '' '' # join (y # ys)"

text \<open>
  \<^verbatim>\<open>Array.prototype.slice(start, end)\<close> on integers: a negative index counts from the
  end of the array, and both indices are clamped to the array.
\<close>

definition slice :: "'a list \<Rightarrow> int \<Rightarrow> int \<Rightarrow> 'a list" where
  "slice xs start end =
     (let len = int (length xs);
          k = (if start < 0 then max (len + start) 0 else min start len);
          final = (if end < 0 then max (len + end) 0 else min end len)
      in take (nat (final - k)) (drop (nat k) xs))"

subsection \<open>\<^verbatim>\<open>chunkUtils.ts\<close>: \<^verbatim>\<open>splitIntoChunks\<close> and \<^verbatim>\<open>countTokens\<close>\<close>

text \<open>
  The \<^verbatim>\<open>while (start < tokens.length)\<close> loop, with its variables \<^verbatim>\<open>start\<close> and
  \<^verbatim>\<open>chunks\<close> as arguments. The source has no \<^verbatim>\<open>throw\<close> and tests its parameters
  nowhere, so the function either returns the chunks or keeps looping; the value \<open>None\<close>
  stands for a call that does not return.
\<close>

partial_function (option) chunkLoop ::
  "string list \<Rightarrow> int \<Rightarrow> int \<Rightarrow> int \<Rightarrow> string list \<Rightarrow> string list option" where
  "chunkLoop tokens chunkSize overlap start chunks =
     (if start < int (length tokens) then
        (let end = min (start + chunkSize) (int (length tokens));
             currentTokens = slice tokens start end;
             chunk =
               (if start > 0 \<and> int (length currentTokens) > overlap then
                  ''<OVERLAP_START> '' @ join (slice currentTokens 0 overlap) @
                  '' <OVERLAP_END> '' @
                  join (slice currentTokens overlap (int (length currentTokens)))
                else join currentTokens);
             chunks' = chunks @ [chunk]
         in if end = int (length tokens) then Some chunks'
            else chunkLoop tokens chunkSize overlap (end - overlap) chunks')
      else Some chunks)"

declare chunkLoop.simps [code]

definition splitIntoChunks :: "string \<Rightarrow> int \<Rightarrow> int \<Rightarrow> string list option" where
  "splitIntoChunks text chunkSize overlap = chunkLoop (tokenize text) chunkSize overlap 0 []"

definition countTokens :: "string \<Rightarrow> nat" where
  "countTokens text = length (filter (\<lambda>token. length token > 0) (split_ws text))"

subsection \<open>Windows and de-marking, as the specification words them\<close>

text \<open>
  The specification's sliding window: window \<open>i\<close> covers the tokens from \<open>start\<close> up to
  \<open>start + chunkSize\<close>, clamped to the token count; the last window is the first one that
  reaches the end; the next window starts \<open>step = chunkSize - overlap\<close> tokens further.
\<close>

function windowsFrom :: "'a list \<Rightarrow> nat \<Rightarrow> nat \<Rightarrow> nat \<Rightarrow> 'a list list" where
  "windowsFrom tokens sz step start =
     (if step = 0 \<or> length tokens \<le> start then []
      else if length tokens \<le> start + sz then [drop start tokens]
      else take sz (drop start tokens) # windowsFrom tokens sz step (start + step))"
  by pat_completeness auto
termination
  by (relation "measure (\<lambda>(tokens, sz, step, start). length tokens - start)") auto

declare windowsFrom.simps [simp del]

text \<open>The text of a marked chunk over a window: its first \<open>overlap\<close> tokens between the markers.\<close>

definition markedChunk :: "nat \<Rightarrow> string list \<Rightarrow> string" where
  "markedChunk overlap w =
     ''<OVERLAP_START> '' @ join (take overlap w) @ '' <OVERLAP_END> '' @ join (drop overlap w)"

text \<open>The chunk texts of a list of windows: the first one plain, the others marked.\<close>

fun render :: "nat \<Rightarrow> string list list \<Rightarrow> string list" where
  "render overlap [] = []"
| "render overlap (w # ws) = join w # map (markedChunk overlap) ws"

text \<open>
  De-marking a chunk after the first: its tokens must be the start marker, \<open>overlap\<close>
  duplicated tokens, the end marker and the rest. The result is the duplicated tokens and
  the rest; any other shape is \<open>None\<close>.
\<close>

definition demark :: "nat \<Rightarrow> string \<Rightarrow> (string list \<times> string list) option" where
  "demark overlap chunk =
     (let ts = tokenize chunk
      in if overlap + 2 \<le> length ts \<and> ts ! 0 = ''<OVERLAP_START>'' \<and>
            ts ! (overlap + 1) = ''<OVERLAP_END>''
         then Some (take overlap (tl ts), drop (overlap + 2) ts) else None)"

text \<open>
  Appending the later chunks to the tokens read so far: each chunk is de-marked, its
  duplicated tokens must be the last \<open>overlap\<close> tokens read so far, and its rest is
  appended.
\<close>

fun destitch :: "nat \<Rightarrow> string list \<Rightarrow> string list \<Rightarrow> string list option" where
  "destitch overlap acc [] = Some acc"
| "destitch overlap acc (c # cs) =
     (case demark overlap c of
        None \<Rightarrow> None
      | Some (dup, rest) \<Rightarrow>
          if dup = drop (length acc - overlap) acc then destitch overlap (acc @ rest) cs
          else None)"

text \<open>The tokens of chunk 1 followed by the de-marked tokens of chunks 2 to \<open>n\<close>.\<close>

fun reconstruct :: "nat \<Rightarrow> string list \<Rightarrow> string list option" where
  "reconstruct overlap [] = Some []"
| "reconstruct overlap (c # cs) = destitch overlap (tokenize c) cs"

text \<open>A token: a non-empty string without white space.\<close>

definition is_token :: "string \<Rightarrow> bool" where
  "is_token t = (t \<noteq> [] \<and> (\<forall>c \<in> set t. \<not> is_space c))"

text \<open>The filter of \<^verbatim>\<open>tokenize\<close> and \<^verbatim>\<open>countTokens\<close>, in the form the simplifier gives it.\<close>

abbreviation nonempty :: "string list \<Rightarrow> string list" where
  "nonempty \<equiv> filter (\<lambda>token. token \<noteq> [])"

text \<open>The token sequence \<open>t1\<close> to \<open>t25\<close> of the specification's end-to-end example.\<close>

definition tokens25 :: "string list" where
  "tokens25 = [''t1'', ''t2'', ''t3'', ''t4'', ''t5'', ''t6'', ''t7'', ''t8'', ''t9'', ''t10'',
     ''t11'', ''t12'', ''t13'', ''t14'', ''t15'', ''t16'', ''t17'', ''t18'', ''t19'', ''t20'',
     ''t21'', ''t22'', ''t23'', ''t24'', ''t25'']"

subsection \<open>File names, shared by \<^verbatim>\<open>stich.ts\<close> and \<^verbatim>\<open>stitchCleaned.ts\<close>\<close>

text \<open>\<^verbatim>\<open>String.prototype.endsWith\<close>\<close>

definition endsWith :: "string \<Rightarrow> string \<Rightarrow> bool" where
  "endsWith s suf = (length suf \<le> length s \<and> drop (length s - length suf) s = suf)"

text \<open>
  \<^verbatim>\<open>String.prototype.toLowerCase\<close> on code units below 256: the letters \<open>A\<close> to \<open>Z\<close>
  and the capital letters of Latin-1 (\<open>0xC0\<close> to \<open>0xDE\<close> without the multiplication sign
  \<open>0xD7\<close>) move up by 32; every other code unit stays.
\<close>

definition lowerChar :: "char \<Rightarrow> char" where
  "lowerChar c =
     (let n = (of_char c :: nat)
      in if (65 \<le> n \<and> n \<le> 90) \<or> (192 \<le> n \<and> n \<le> 222 \<and> n \<noteq> 215)
         then char_of (n + 32) else c)"

definition toLowerCase :: "string \<Rightarrow> string" where
  "toLowerCase s = map lowerChar s"

text \<open>The regular expression classes \<^verbatim>\<open>\d\<close> and, negated, \<^verbatim>\<open>.\<close> (no line terminator).\<close>

definition is_digit :: "char \<Rightarrow> bool" where
  "is_digit c = (let n = (of_char c :: nat) in 48 \<le> n \<and> n \<le> 57)"

definition is_line_terminator :: "char \<Rightarrow> bool" where
  "is_line_terminator c = (let n = (of_char c :: nat) in n = 10 \<or> n = 13)"

text \<open>
  \<^verbatim>\<open>file.match(/^(.*)-(\d+)\.json$/)\<close> and \<^verbatim>\<open>file.match(/^(.*)-(\d+)\.txt$/)\<close>, with the
  extension \<open>ext\<close> as a parameter: the name must end with the extension, before it stands a
  non-empty run of digits, before the digits a hyphen, and before the hyphen there is no
  line terminator. The result holds the two groups \<^verbatim>\<open>match[1]\<close> and \<^verbatim>\<open>match[2]\<close>.
\<close>

definition matchFile :: "string \<Rightarrow> string \<Rightarrow> (string \<times> string) option" where
  "matchFile ext file =
     (if endsWith file ext then
        (let stem = take (length file - length ext) file;
             digits = rev (takeWhile is_digit (rev stem));
             pre = take (length stem - length digits) stem
         in if digits \<noteq> [] \<and> pre \<noteq> [] \<and> last pre = CHR ''-'' \<and>
               \<not> list_ex is_line_terminator (butlast pre)
            then Some (butlast pre, digits) else None)
      else None)"

text \<open>
  The Number of a non-negative integer: the integer itself below \<open>2^53\<close>, above it the
  nearest integer with 53 significant bits (a tie goes to the even one), and
  \<^verbatim>\<open>Infinity\<close> when that is \<open>2^1024\<close> or more.
\<close>

fun bitlen :: "nat \<Rightarrow> nat" where
  "bitlen n = (if n = 0 then 0 else Suc (bitlen (n div 2)))"

declare bitlen.simps [simp del]

definition toNumber :: "nat \<Rightarrow> enat" where
  "toNumber n =
     (if n < 2 ^ 53 then enat n
      else
        (let e = bitlen n - 53;
             q = n div 2 ^ e;
             r = n mod 2 ^ e;
             half = 2 ^ (e - 1);
             rounded = (if half < r \<or> (r = half \<and> odd q) then q + 1 else q) * 2 ^ e
         in if 2 ^ 1024 \<le> rounded then \<infinity> else enat rounded))"

text \<open>
  \<^verbatim>\<open>parseInt(match[2], 10)\<close> on a run of decimal digits: the Number of the decimal
  value (V8 converts the digits with correct rounding).
\<close>

definition parseInt :: "string \<Rightarrow> enat" where
  "parseInt ds = toNumber (foldl (\<lambda>n c. 10 * n + (of_char c - 48)) 0 ds)"

text \<open>
  The \<^verbatim>\<open>Map\<close> from base name to the files of the group keeps its keys in insertion
  order: an association list. \<^verbatim>\<open>if (!groups.has(baseName)) groups.set(baseName, [])\<close>
  followed by \<^verbatim>\<open>groups.get(baseName)!.push(info)\<close>:
\<close>

definition pushToGroup :: "string \<Rightarrow> 'a \<Rightarrow> (string \<times> 'a list) list \<Rightarrow> (string \<times> 'a list) list" where
  "pushToGroup baseName info groups =
     (let groups' = (if map_of groups baseName = None then AList.update baseName [] groups
                     else groups)
      in AList.map_entry baseName (\<lambda>files. files @ [info]) groups')"

text \<open>What the programs print, reduced to the kind of the message and the name it is about.\<close>

datatype message =
    WarnNoMatch string
  | ErrorReadDir
  | ErrorRead string
  | ErrorParse string
  | WarnNoChunks string
  | LogSaved string
  | ErrorWrite string

text \<open>
  The file system the programs run in: the listing of the input folder, the content of
  each of its files, and whether a write to an output file succeeds. A call that throws
  is \<open>None\<close> or \<open>False\<close>.
\<close>

record env =
  readdir :: "string list option"
  readFile :: "string \<Rightarrow> string option"
  writeFile :: "string \<Rightarrow> bool"

text \<open>
  What a run leaves behind: the files written to the output folder, the
  \<^verbatim>\<open>stitchMetadata\<close> object that is saved as \<^verbatim>\<open>stichfile.json\<close> at the end, and the
  console.
\<close>

record state =
  written :: "string \<rightharpoonup> string"
  stitchMetadata :: "string \<rightharpoonup> nat"
  console :: "message list"

definition initial :: state where
  "initial = \<lparr>written = Map.empty, stitchMetadata = Map.empty, console = []\<rparr>"

definition say :: "message \<Rightarrow> state \<Rightarrow> state" where
  "say m st = st\<lparr>console := console st @ [m]\<rparr>"

definition newline :: char where
  "newline = CHR 0x0A"

subsection \<open>\<^verbatim>\<open>stich.ts\<close>: the chunk-set stitcher\<close>

record ChunkInfo =
  fileName :: string
  chunk :: enat

text \<open>The first loop of \<^verbatim>\<open>main\<close>: group the file names by base name.\<close>

fun groupChunkFiles ::
  "string list \<Rightarrow> (string \<times> ChunkInfo list) list \<times> state \<Rightarrow>
     (string \<times> ChunkInfo list) list \<times> state" where
  "groupChunkFiles [] (groups, st) = (groups, st)"
| "groupChunkFiles (file # rest) (groups, st) =
     (case matchFile ''.txt'' file of
        Some (baseName, digits) \<Rightarrow>
          (let chunkNum = parseInt digits
           in groupChunkFiles rest
                (pushToGroup baseName \<lparr>fileName = file, chunk = chunkNum\<rparr> groups, st))
      | None \<Rightarrow> groupChunkFiles rest (groups, say (WarnNoMatch file) st))"

text \<open>
  \<^verbatim>\<open>path.parse(baseName).name\<close> of Node's POSIX \<^verbatim>\<open>path\<close> module, for a base name
  without a slash (the base name is part of a directory entry, which holds none): the name
  without its extension. The extension starts at the last dot, unless there is no dot, the
  last dot is the first character, or the name is \<^verbatim>\<open>..\<close>.
\<close>

definition parsedName :: "string \<Rightarrow> string" where
  "parsedName base =
     (let afterDot = takeWhile (\<lambda>c. c \<noteq> CHR ''.'') (rev base);
          startDot = length base - length afterDot - 1
      in if CHR ''.'' \<notin> set base \<or> startDot = 0 \<or> base = ''..'' then base
         else take startDot base)"

text \<open>The inner loop over the sorted files of a group: \<^verbatim>\<open>stitchedText += content + "\n"\<close>.\<close>

fun stitchFiles :: "env \<Rightarrow> ChunkInfo list \<Rightarrow> string \<times> state \<Rightarrow> string \<times> state" where
  "stitchFiles e [] (stitchedText, st) = (stitchedText, st)"
| "stitchFiles e (fileInfo # rest) (stitchedText, st) =
     (case readFile e (fileName fileInfo) of
        Some content \<Rightarrow> stitchFiles e rest (stitchedText @ content @ [newline], st)
      | None \<Rightarrow> stitchFiles e rest (stitchedText, say (ErrorRead (fileName fileInfo)) st))"

definition outputFileName :: "string \<Rightarrow> string" where
  "outputFileName baseName =
     (if \<not> endsWith (toLowerCase baseName) ''.txt'' then baseName @ ''.txt'' else baseName)"

text \<open>
  The body of the loop over the groups: sort by chunk number (the sort of an array is
  stable, and \<^verbatim>\<open>a.chunk - b.chunk\<close> has the sign of the comparison, with two
  \<^verbatim>\<open>Infinity\<close> comparing equal), stitch, prepend the header, write the file and record
  its length. A failed write prints the output name.
\<close>

fun stitchGroup :: "env \<Rightarrow> string \<times> ChunkInfo list \<Rightarrow> state \<Rightarrow> state" where
  "stitchGroup e (baseName, unsorted) st =
     (let files = sort_key chunk unsorted;
          (stitchedText, st1) = stitchFiles e files ([], st);
          header = parsedName baseName;
          stitchedText' = header @ [newline, newline] @ stitchedText;
          outputName = outputFileName baseName
      in if writeFile e outputName
         then say (LogSaved outputName)
                (st1\<lparr>written := (written st1)(outputName \<mapsto> stitchedText'),
                     stitchMetadata := (stitchMetadata st1)(outputName \<mapsto> length stitchedText')\<rparr>)
         else say (ErrorWrite outputName) st1)"

definition stitchMain :: "env \<Rightarrow> state" where
  "stitchMain e =
     (case readdir e of
        None \<Rightarrow> say ErrorReadDir initial
      | Some fileNames \<Rightarrow>
          (let (groups, st) = groupChunkFiles fileNames ([], initial)
           in fold (stitchGroup e) groups st))"

subsection \<open>JSON values\<close>

text \<open>
  The values \<^verbatim>\<open>JSON.parse\<close> returns. An object is the list of its properties in the
  order of \<^verbatim>\<open>Object.keys\<close>, with pairwise distinct keys. Numbers are the integers.
\<close>

datatype json =
    JNull
  | JBool bool
  | JNum int
  | JStr string
  | JArr "json list"
  | JObj "(string \<times> json) list"

text \<open>The decimal digits of a natural number, and \<^verbatim>\<open>Number.prototype.toString\<close> on integers.\<close>

fun showNat :: "nat \<Rightarrow> string" where
  "showNat n = (if n < 10 then [char_of (48 + n)] else showNat (n div 10) @ [char_of (48 + n mod 10)])"

declare showNat.simps [simp del]

definition showInt :: "int \<Rightarrow> string" where
  "showInt i = (if i < 0 then CHR ''-'' # showNat (nat (- i)) else showNat (nat i))"

text \<open>
  \<^verbatim>\<open>QuoteJSONString\<close> of ECMA-262 on code units below 256: the quote and the backslash
  are escaped, the control characters have their short escape or \<^verbatim>\<open>\u00XX\<close>.
\<close>

definition hexDigit :: "nat \<Rightarrow> char" where
  "hexDigit n = (if n < 10 then char_of (48 + n) else char_of (87 + n))"

definition quoteChar :: "char \<Rightarrow> string" where
  "quoteChar c =
     (let n = (of_char c :: nat)
      in if n = 8 then [CHR 0x5C, CHR ''b'']
         else if n = 9 then [CHR 0x5C, CHR ''t'']
         else if n = 10 then [CHR 0x5C, CHR ''n'']
         else if n = 12 then [CHR 0x5C, CHR ''f'']
         else if n = 13 then [CHR 0x5C, CHR ''r'']
         else if n = 34 then [CHR 0x5C, CHR 0x22]
         else if n = 92 then [CHR 0x5C, CHR 0x5C]
         else if n < 32 then [CHR 0x5C, CHR ''u'', CHR ''0'', CHR ''0'', hexDigit (n div 16), hexDigit (n mod 16)]
         else [c])"

definition QuoteJSONString :: "string \<Rightarrow> string" where
  "QuoteJSONString s = [CHR 0x22] @ concat (map quoteChar s) @ [CHR 0x22]"

text \<open>Joining the members of an object or the elements of an array with a separator.\<close>

fun joinWith :: "string \<Rightarrow> string list \<Rightarrow> string" where
  "joinWith sep [] = []"
| "joinWith sep [x] = x"
| "joinWith sep (x # y # ys) = x @ sep @ joinWith sep (y # ys)"

text \<open>
  \<^verbatim>\<open>SerializeJSONProperty\<close>, \<^verbatim>\<open>SerializeJSONObject\<close> and \<^verbatim>\<open>SerializeJSONArray\<close> of
  ECMA-262, with the gap and the current indentation as arguments. With the empty gap the
  members are separated by a comma only and no space follows the colon; with a gap every
  member starts on a line of its own.
\<close>

fun SerializeJSON :: "string \<Rightarrow> string \<Rightarrow> json \<Rightarrow> string" where
  "SerializeJSON gap indent JNull = ''null''"
| "SerializeJSON gap indent (JBool b) = (if b then ''true'' else ''false'')"
| "SerializeJSON gap indent (JNum i) = showInt i"
| "SerializeJSON gap indent (JStr s) = QuoteJSONString s"
| "SerializeJSON gap indent (JArr xs) =
     (let stepback = indent;
          indent' = indent @ gap;
          partial = map (SerializeJSON gap indent') xs
      in if partial = [] then ''[]''
         else if gap = [] then ''['' @ joinWith '','' partial @ '']''
         else ''['' @ [CHR 0x0A] @ indent' @ joinWith ('','' @ [CHR 0x0A] @ indent') partial @
              [CHR 0x0A] @ stepback @ '']'')"
| "SerializeJSON gap indent (JObj kvs) =
     (let stepback = indent;
          indent' = indent @ gap;
          partial = map (\<lambda>kv. QuoteJSONString (fst kv) @ '':'' @ (if gap \<noteq> [] then '' '' else []) @
                            SerializeJSON gap indent' (snd kv)) kvs
      in if partial = [] then ''{}''
         else if gap = [] then ''{'' @ joinWith '','' partial @ ''}''
         else ''{'' @ [CHR 0x0A] @ indent' @ joinWith ('','' @ [CHR 0x0A] @ indent') partial @
              [CHR 0x0A] @ stepback @ ''}'')"

text \<open>\<^verbatim>\<open>JSON.stringify(value)\<close> and \<^verbatim>\<open>JSON.stringify(value, null, 2)\<close>\<close>

definition stringify :: "json \<Rightarrow> string" where
  "stringify v = SerializeJSON [] [] v"

definition stringify2 :: "json \<Rightarrow> string" where
  "stringify2 v = SerializeJSON ''  '' [] v"

subsection \<open>\<^verbatim>\<open>stitchCleaned.ts\<close>: the cleaned-chunk re-indexer\<close>

record FileInfo =
  fileName :: string
  chunkNum :: enat

text \<open>
  The uncaught exception of this program: reading a property of \<^verbatim>\<open>null\<close>. A run that
  throws is \<open>Inl\<close> of the exception and the state it leaves behind.
\<close>

datatype exn = TypeError

text \<open>The first loop of \<^verbatim>\<open>main\<close>: group the file names by base name.\<close>

fun groupJsonFiles ::
  "string list \<Rightarrow> (string \<times> FileInfo list) list \<times> state \<Rightarrow>
     (string \<times> FileInfo list) list \<times> state" where
  "groupJsonFiles [] (groups, st) = (groups, st)"
| "groupJsonFiles (file # rest) (groups, st) =
     (case matchFile ''.json'' file of
        None \<Rightarrow> groupJsonFiles rest (groups, say (WarnNoMatch file) st)
      | Some (baseName, digits) \<Rightarrow>
          (let chunkNum = parseInt digits
           in groupJsonFiles rest
                (pushToGroup baseName \<lparr>fileName = file, chunkNum = chunkNum\<rparr> groups, st)))"

text \<open>
  \<^verbatim>\<open>jsonData.chunks\<close>: reading a property of \<^verbatim>\<open>null\<close> throws a \<^verbatim>\<open>TypeError\<close>; an
  object yields its own property or \<^verbatim>\<open>undefined\<close>; a boolean, a number, a string and an
  array have no property named \<^verbatim>\<open>chunks\<close>. \<open>None\<close> is \<^verbatim>\<open>undefined\<close>.
\<close>

fun getChunks :: "json \<Rightarrow> exn + json option" where
  "getChunks JNull = Inl TypeError"
| "getChunks (JObj kvs) = Inr (map_of kvs ''chunks'')"
| "getChunks v = Inr None"

text \<open>
  The inner loop over the sorted files of a group. The two \<^verbatim>\<open>try\<close> blocks cover
  \<^verbatim>\<open>fs.readFile\<close> and \<^verbatim>\<open>JSON.parse\<close> only; the test \<^verbatim>\<open>Array.isArray(jsonData.chunks)\<close>
  stands outside them. \<^verbatim>\<open>JSON.parse\<close> is the argument \<open>parse\<close>, \<open>None\<close> when it throws.
\<close>

fun mergeFiles ::
  "env \<Rightarrow> (string \<Rightarrow> json option) \<Rightarrow> FileInfo list \<Rightarrow> json list \<times> state \<Rightarrow>
     exn \<times> state + json list \<times> state" where
  "mergeFiles e parse [] (mergedChunks, st) = Inr (mergedChunks, st)"
| "mergeFiles e parse (fileInfo # rest) (mergedChunks, st) =
     (case readFile e (fileName fileInfo) of
        None \<Rightarrow> mergeFiles e parse rest (mergedChunks, say (ErrorRead (fileName fileInfo)) st)
      | Some fileContent \<Rightarrow>
          (case parse fileContent of
             None \<Rightarrow>
               mergeFiles e parse rest (mergedChunks, say (ErrorParse (fileName fileInfo)) st)
           | Some jsonData \<Rightarrow>
               (case getChunks jsonData of
                  Inl x \<Rightarrow> Inl (x, st)
                | Inr (Some (JArr chunks)) \<Rightarrow>
                    mergeFiles e parse rest (mergedChunks @ chunks, st)
                | Inr _ \<Rightarrow>
                    mergeFiles e parse rest
                      (mergedChunks, say (WarnNoChunks (fileName fileInfo)) st))))"

text \<open>
  The object spread \<^verbatim>\<open>{...chunk}\<close>: the own properties of an object, the indexed
  elements of an array, the indexed characters of a string, nothing for the rest.
\<close>

fun spread :: "json \<Rightarrow> (string \<times> json) list" where
  "spread (JObj kvs) = kvs"
| "spread (JArr xs) = map (\<lambda>(i, x). (showNat i, x)) (List.enumerate 0 xs)"
| "spread (JStr s) = map (\<lambda>(i, c). (showNat i, JStr [c])) (List.enumerate 0 s)"
| "spread v = []"

text \<open>
  \<^verbatim>\<open>mergedChunks.map((chunk, index) => ({...chunk, chunkNumber: index + 1}))\<close>: a
  property that exists keeps its place and takes the new value, a new one goes last.
\<close>

definition reindexChunks :: "json list \<Rightarrow> json list" where
  "reindexChunks mergedChunks =
     map (\<lambda>(index, chunk). JObj (AList.update ''chunkNumber'' (JNum (int index + 1)) (spread chunk)))
       (List.enumerate 0 mergedChunks)"

definition finalFileName :: "string \<Rightarrow> string" where
  "finalFileName baseName =
     (if \<not> endsWith (toLowerCase baseName) ''.txt'' then baseName @ ''.txt'' else baseName)"

text \<open>The merged and re-indexed chunk list of one group.\<close>

definition mergeGroup ::
  "env \<Rightarrow> (string \<Rightarrow> json option) \<Rightarrow> FileInfo list \<Rightarrow> state \<Rightarrow>
     exn \<times> state + json list \<times> state" where
  "mergeGroup e parse unsorted st =
     (case mergeFiles e parse (sort_key chunkNum unsorted) ([], st) of
        Inl x \<Rightarrow> Inl x
      | Inr (mergedChunks, st1) \<Rightarrow> Inr (reindexChunks mergedChunks, st1))"

text \<open>
  The body of the loop over the groups. The file holds the indented serialisation, the
  recorded length is the length of the compact one. A failed write prints the base name.
\<close>

fun reindexGroup ::
  "env \<Rightarrow> (string \<Rightarrow> json option) \<Rightarrow> string \<times> FileInfo list \<Rightarrow> state \<Rightarrow>
     exn \<times> state + state" where
  "reindexGroup e parse (baseName, unsorted) st =
     (case mergeGroup e parse unsorted st of
        Inl x \<Rightarrow> Inl x
      | Inr (mergedChunks, st1) \<Rightarrow>
          (let outputName = finalFileName baseName;
               finalJSON = JObj [(''chunks'', JArr mergedChunks)]
           in if writeFile e outputName
              then Inr (say (LogSaved outputName)
                     (st1\<lparr>written := (written st1)(outputName \<mapsto> stringify2 finalJSON),
                          stitchMetadata :=
                            (stitchMetadata st1)(outputName \<mapsto> length (stringify finalJSON))\<rparr>))
              else Inr (say (ErrorWrite baseName) st1)))"

text \<open>The loop over the groups stops at the first exception.\<close>

fun reindexGroups ::
  "env \<Rightarrow> (string \<Rightarrow> json option) \<Rightarrow> (string \<times> FileInfo list) list \<Rightarrow> state \<Rightarrow>
     exn \<times> state + state" where
  "reindexGroups e parse [] st = Inr st"
| "reindexGroups e parse (g # gs) st =
     (case reindexGroup e parse g st of
        Inl x \<Rightarrow> Inl x
      | Inr st1 \<Rightarrow> reindexGroups e parse gs st1)"

definition reindexMain :: "env \<Rightarrow> (string \<Rightarrow> json option) \<Rightarrow> exn \<times> state + state" where
  "reindexMain e parse =
     (case readdir e of
        None \<Rightarrow> Inr (say ErrorReadDir initial)
      | Some fileNames \<Rightarrow>
          (let (groups, st) = groupJsonFiles fileNames ([], initial)
           in reindexGroups e parse groups st))"

subsection \<open>Notions of the claims about the re-indexer\<close>

text \<open>The chunk array of a file, when the file can be read, parses and has one.\<close>

definition chunksOf :: "env \<Rightarrow> (string \<Rightarrow> json option) \<Rightarrow> FileInfo \<Rightarrow> json list option" where
  "chunksOf e parse fileInfo =
     (case readFile e (fileName fileInfo) of
        None \<Rightarrow> None
      | Some fileContent \<Rightarrow>
          (case parse fileContent of
             Some (JObj kvs) \<Rightarrow>
               (case map_of kvs ''chunks'' of Some (JArr chunks) \<Rightarrow> Some chunks | _ \<Rightarrow> None)
           | _ \<Rightarrow> None))"

definition fileChunks :: "env \<Rightarrow> (string \<Rightarrow> json option) \<Rightarrow> FileInfo \<Rightarrow> json list" where
  "fileChunks e parse fileInfo = (case chunksOf e parse fileInfo of None \<Rightarrow> [] | Some chunks \<Rightarrow> chunks)"

fun is_object :: "json \<Rightarrow> bool" where
  "is_object (JObj kvs) = True"
| "is_object v = False"

definition wellFormed :: "env \<Rightarrow> (string \<Rightarrow> json option) \<Rightarrow> FileInfo \<Rightarrow> bool" where
  "wellFormed e parse fileInfo =
     (case chunksOf e parse fileInfo of None \<Rightarrow> False | Some chunks \<Rightarrow> list_all is_object chunks)"

definition setChunkNumber :: "int \<Rightarrow> json \<Rightarrow> json" where
  "setChunkNumber n c = JObj (AList.update ''chunkNumber'' (JNum n) (spread c))"

definition chunkNumberOf :: "json \<Rightarrow> json option" where
  "chunkNumberOf c = map_of (spread c) ''chunkNumber''"

text \<open>The stitcher's invariant: every recorded length is the length of the file written under that name.\<close>

definition recorded_is_written :: "state \<Rightarrow> bool" where
  "recorded_is_written st =
     (\<forall>name n. stitchMetadata st name = Some n \<longrightarrow>
        (\<exists>content. written st name = Some content \<and> length content = n))"

subsection \<open>Notions of the claims about the stitcher\<close>

text \<open>
  What stitching a group in a given order of its chunks leaves behind: the header, a blank
  line, and the content of every readable chunk in that order, each followed by a newline;
  one message for every unreadable chunk, in that order; the file and its length recorded
  when the write succeeds.
\<close>

definition chunkText :: "env \<Rightarrow> ChunkInfo \<Rightarrow> string" where
  "chunkText e f =
     (case readFile e (ChunkInfo.fileName f) of None \<Rightarrow> [] | Some content \<Rightarrow> content @ [newline])"

definition readErrors :: "env \<Rightarrow> ChunkInfo list \<Rightarrow> message list" where
  "readErrors e files =
     map (\<lambda>f. ErrorRead (ChunkInfo.fileName f))
       (filter (\<lambda>f. readFile e (ChunkInfo.fileName f) = None) files)"

definition stitchedInOrder :: "env \<Rightarrow> string \<Rightarrow> ChunkInfo list \<Rightarrow> state \<Rightarrow> state" where
  "stitchedInOrder e baseName ordered st =
     (let stitched = parsedName baseName @ [newline, newline] @ concat (map (chunkText e) ordered);
          outputName = outputFileName baseName
      in if writeFile e outputName
         then \<lparr>written = (written st)(outputName \<mapsto> stitched),
               stitchMetadata = (stitchMetadata st)(outputName \<mapsto> length stitched),
               console = console st @ readErrors e ordered @ [LogSaved outputName]\<rparr>
         else \<lparr>written = written st,
               stitchMetadata = stitchMetadata st,
               console = console st @ readErrors e ordered @ [ErrorWrite outputName]\<rparr>)"

subsection \<open>Example inputs\<close>

text \<open>
  A group of the stitcher presented out of order, in a folder of its own, the same group in
  ascending order of the index, and a third order.
\<close>

definition files312 :: "ChunkInfo list" where
  "files312 = [\<lparr>ChunkInfo.fileName = ''d-10.txt'', chunk = 10\<rparr>, \<lparr>ChunkInfo.fileName = ''d-3.txt'', chunk = 3\<rparr>,
               \<lparr>ChunkInfo.fileName = ''d-1.txt'', chunk = 1\<rparr>, \<lparr>ChunkInfo.fileName = ''d-2.txt'', chunk = 2\<rparr>]"

definition files123 :: "ChunkInfo list" where
  "files123 = [\<lparr>ChunkInfo.fileName = ''d-1.txt'', chunk = 1\<rparr>, \<lparr>ChunkInfo.fileName = ''d-2.txt'', chunk = 2\<rparr>,
               \<lparr>ChunkInfo.fileName = ''d-3.txt'', chunk = 3\<rparr>, \<lparr>ChunkInfo.fileName = ''d-10.txt'', chunk = 10\<rparr>]"

definition files2310 :: "ChunkInfo list" where
  "files2310 = [\<lparr>ChunkInfo.fileName = ''d-2.txt'', chunk = 2\<rparr>, \<lparr>ChunkInfo.fileName = ''d-3.txt'', chunk = 3\<rparr>,
                \<lparr>ChunkInfo.fileName = ''d-10.txt'', chunk = 10\<rparr>, \<lparr>ChunkInfo.fileName = ''d-1.txt'', chunk = 1\<rparr>]"

definition env6 :: env where
  "env6 = \<lparr>readdir = Some [''d-10.txt'', ''d-3.txt'', ''d-1.txt'', ''d-2.txt''],
           readFile = (\<lambda>f. Some (takeWhile (\<lambda>c. c \<noteq> CHR ''.'') f)),
           writeFile = (\<lambda>f. True)\<rparr>"

text \<open>
  Two cleaned files of one document and a file that holds \<^verbatim>\<open>null\<close>. \<open>parseExample\<close> is
  \<^verbatim>\<open>JSON.parse\<close> on the three contents.
\<close>

definition chunkA :: json where
  "chunkA = JObj [(''chunkNumber'', JNum 1), (''cleanedText'', JStr ''a'')]"
definition chunkB :: json where
  "chunkB = JObj [(''chunkNumber'', JNum 2), (''cleanedText'', JStr ''b'')]"
definition chunkC :: json where
  "chunkC = JObj [(''chunkNumber'', JNum 1), (''cleanedText'', JStr ''c'')]"
definition chunkC3 :: json where
  "chunkC3 = JObj [(''chunkNumber'', JNum 3), (''cleanedText'', JStr ''c'')]"
definition json1 :: json where
  "json1 = JObj [(''chunks'', JArr [chunkA, chunkB])]"
definition json2 :: json where
  "json2 = JObj [(''chunks'', JArr [chunkC])]"

definition parseExample :: "string \<Rightarrow> json option" where
  "parseExample s =
     (if s = stringify json1 then Some json1
      else if s = stringify json2 then Some json2
      else if s = ''null'' then Some JNull
      else None)"

definition envExample :: env where
  "envExample =
     \<lparr>readdir = Some [''doc.pdf-2.json'', ''doc.pdf-1.json''],
      readFile = (\<lambda>f. if f = ''doc.pdf-1.json'' then Some (stringify json1)
                       else if f = ''doc.pdf-2.json'' then Some (stringify json2)
                       else if f = ''bad-1.json'' then Some ''null''
                       else None),
      writeFile = (\<lambda>f. True)\<rparr>"

definition envBad :: env where
  "envBad = envExample\<lparr>readdir := Some [''bad-1.json'', ''doc.pdf-2.json'', ''doc.pdf-1.json'']\<rparr>"


definition filesExample :: "FileInfo list" where
  "filesExample = [\<lparr>fileName = ''doc.pdf-2.json'', chunkNum = 2\<rparr>,
                   \<lparr>fileName = ''doc.pdf-1.json'', chunkNum = 1\<rparr>]"

definition finalExample :: json where
  "finalExample = JObj [(''chunks'', JArr [chunkA, chunkB, chunkC3])]"

section \<open>Lemmas\<close>

subsection \<open>Tokens\<close>

lemma split_ws_space_end: "is_space c \<Longrightarrow> split_ws [c] = [[], []]"
  by simp

lemma split_ws_space_space:
  "is_space c \<Longrightarrow> is_space d \<Longrightarrow> split_ws (c # d # s) = split_ws (d # s)"
  by simp

lemma split_ws_space_nonspace:
  "is_space c \<Longrightarrow> \<not> is_space d \<Longrightarrow> split_ws (c # d # s) = [] # split_ws (d # s)"
  by simp

lemma split_ws_nonspace_case:
  "\<not> is_space c \<Longrightarrow>
     split_ws (c # s) = (case split_ws s of [] \<Rightarrow> [[c]] | p # ps \<Rightarrow> (c # p) # ps)"
  by simp

declare split_ws.simps(2) [simp del]

lemma split_ws_not_Nil: "split_ws s \<noteq> []"
proof (induction s)
  case Nil
  show ?case by simp
next
  case (Cons c cs)
  show ?case
  proof (cases "is_space c")
    case False
    then show ?thesis
      by (simp add: split_ws_nonspace_case split: list.splits)
  next
    case True
    note sc = this
    show ?thesis
    proof (cases cs)
      case Nil
      with sc show ?thesis by (simp add: split_ws_space_end)
    next
      case (Cons d ds)
      with sc Cons.IH show ?thesis
        by (cases "is_space d") (simp_all add: split_ws_space_space split_ws_space_nonspace)
    qed
  qed
qed

lemma split_ws_nonspace_Cons:
  "\<not> is_space c \<Longrightarrow> split_ws (c # s) = (c # hd (split_ws s)) # tl (split_ws s)"
  using split_ws_not_Nil [of s]
  by (cases "split_ws s") (simp_all add: split_ws_nonspace_case)

lemma hd_split_ws_space: "is_space c \<Longrightarrow> hd (split_ws (c # s)) = []"
proof (induction s arbitrary: c)
  case Nil
  then show ?case by (simp add: split_ws_space_end)
next
  case (Cons d s)
  then show ?case
    by (cases "is_space d") (simp_all add: split_ws_space_space split_ws_space_nonspace)
qed

lemma tokenize_hd_tl:
  "tokenize s = (if hd (split_ws s) = [] then [] else [hd (split_ws s)]) @
     nonempty (tl (split_ws s))"
  using split_ws_not_Nil [of s] by (cases "split_ws s") (simp_all add: tokenize_def)

lemma tokenize_space_Cons: "is_space c \<Longrightarrow> tokenize (c # s) = tokenize s"
proof (cases s)
  case Nil
  assume "is_space c"
  with Nil show ?thesis by (simp add: tokenize_def split_ws_space_end)
next
  case (Cons d ds)
  assume "is_space c"
  with Cons show ?thesis
    by (cases "is_space d")
      (simp_all add: tokenize_def split_ws_space_space split_ws_space_nonspace)
qed

lemma tl_split_ws_space:
  assumes "is_space c"
  shows "nonempty (tl (split_ws (c # s))) = tokenize s"
proof -
  have "tokenize (c # s) = nonempty (tl (split_ws (c # s)))"
    using hd_split_ws_space [OF assms, of s] tokenize_hd_tl [of "c # s"] by simp
  then show ?thesis using tokenize_space_Cons [OF assms, of s] by simp
qed

lemma split_ws_append_space:
  "is_space c \<Longrightarrow>
     hd (split_ws (a @ c # b)) = hd (split_ws a) \<and>
     nonempty (tl (split_ws (a @ c # b))) = nonempty (tl (split_ws a)) @ tokenize b"
proof (induction a)
  case Nil
  then show ?case by (simp add: hd_split_ws_space tl_split_ws_space)
next
  case (Cons x xs)
  note sc = \<open>is_space c\<close>
  note IH = Cons.IH [OF sc]
  show ?case
  proof (cases "is_space x")
    case False
    with IH show ?thesis by (simp add: split_ws_nonspace_Cons)
  next
    case True
    note sx = this
    show ?thesis
    proof (cases xs)
      case Nil
      have "split_ws ((x # xs) @ c # b) = split_ws (c # b)"
        using Nil sx sc by (simp add: split_ws_space_space)
      with Nil sx sc show ?thesis
        by (simp add: split_ws_space_end hd_split_ws_space tl_split_ws_space)
    next
      case (Cons d ds)
      show ?thesis
      proof (cases "is_space d")
        case True
        with sx Cons IH show ?thesis by (simp add: split_ws_space_space)
      next
        case False
        have "tokenize (xs @ c # b) = tokenize xs @ tokenize b"
          using IH by (simp add: tokenize_hd_tl [of "xs @ c # b"] tokenize_hd_tl [of xs])
        then have "nonempty (split_ws (xs @ c # b)) = nonempty (split_ws xs) @ tokenize b"
          by (simp add: tokenize_def)
        with sx Cons False show ?thesis by (simp add: split_ws_space_nonspace)
      qed
    qed
  qed
qed

lemma tokenize_append_space:
  "is_space c \<Longrightarrow> tokenize (a @ c # b) = tokenize a @ tokenize b"
  using split_ws_append_space [of c a b]
  by (simp add: tokenize_hd_tl [of "a @ c # b"] tokenize_hd_tl [of a])

lemma split_ws_no_space: "\<forall>p \<in> set (split_ws s). \<forall>c \<in> set p. \<not> is_space c"
proof (induction s)
  case Nil
  then show ?case by simp
next
  case (Cons x xs)
  show ?case
  proof (cases "is_space x")
    case False
    have "set (split_ws xs) = insert (hd (split_ws xs)) (set (tl (split_ws xs)))"
      using split_ws_not_Nil [of xs] by (cases "split_ws xs") auto
    with Cons False show ?thesis
      by (simp add: split_ws_nonspace_Cons)
  next
    case True
    show ?thesis
    proof (cases xs)
      case Nil
      with True show ?thesis by (simp add: split_ws_space_end)
    next
      case (Cons d ds)
      with True Cons.IH show ?thesis
        by (cases "is_space d") (simp_all add: split_ws_space_space split_ws_space_nonspace)
    qed
  qed
qed

lemma tokenize_is_token: "t \<in> set (tokenize s) \<Longrightarrow> is_token t"
  using split_ws_no_space [of s] by (auto simp: tokenize_def is_token_def)

lemma split_ws_token: "\<forall>c \<in> set t. \<not> is_space c \<Longrightarrow> split_ws t = [t]"
  by (induction t) (simp_all add: split_ws_nonspace_Cons)

lemma tokenize_token: "is_token t \<Longrightarrow> tokenize t = [t]"
  by (simp add: tokenize_def is_token_def split_ws_token)

lemma is_space_blank: "is_space CHR '' ''"
  by (simp add: is_space_def)

lemma tokenize_Nil: "tokenize [] = []"
  by (simp add: tokenize_def)

lemma tokenize_join: "\<forall>t \<in> set ts. is_token t \<Longrightarrow> tokenize (join ts) = ts"
proof (induction ts rule: join.induct)
  case 1
  then show ?case by (simp add: tokenize_Nil)
next
  case (2 x)
  then show ?case by (simp add: tokenize_token)
next
  case (3 x y ys)
  have "tokenize (join (x # y # ys)) = tokenize x @ tokenize (join (y # ys))"
    using tokenize_append_space [OF is_space_blank, of x "join (y # ys)"] by simp
  also have "tokenize x = [x]" using 3(2) by (simp add: tokenize_token)
  also have "tokenize (join (y # ys)) = y # ys" using 3 by simp
  finally show ?case by simp
qed

subsection \<open>The loop of \<^verbatim>\<open>splitIntoChunks\<close> computes the windows\<close>

lemma slice_nat:
  "s \<le> e \<Longrightarrow> e \<le> length xs \<Longrightarrow> slice xs (int s) (int e) = take (e - s) (drop s xs)"
  by (simp add: slice_def Let_def nat_diff_distrib')

lemma tokenize_markedChunk:
  assumes "\<forall>t \<in> set w. is_token t"
  shows "tokenize (markedChunk ov w) =
           ''<OVERLAP_START>'' # take ov w @ ''<OVERLAP_END>'' # drop ov w"
proof -
  have a: "\<forall>t \<in> set (take ov w). is_token t" using assms by (auto dest: in_set_takeD)
  have b: "\<forall>t \<in> set (drop ov w). is_token t" using assms by (auto dest: in_set_dropD)
  have s: "is_token ''<OVERLAP_START>''" by (simp add: is_token_def is_space_def)
  have e: "is_token ''<OVERLAP_END>''" by (simp add: is_token_def is_space_def)
  have "markedChunk ov w =
      ''<OVERLAP_START>'' @ CHR '' '' # (join (take ov w) @ CHR '' '' #
        (''<OVERLAP_END>'' @ CHR '' '' # join (drop ov w)))"
    by (simp add: markedChunk_def)
  then have "tokenize (markedChunk ov w) =
      tokenize ''<OVERLAP_START>'' @ tokenize (join (take ov w)) @
      tokenize ''<OVERLAP_END>'' @ tokenize (join (drop ov w))"
    by (simp only: tokenize_append_space [OF is_space_blank])
  then show ?thesis
    by (simp only: tokenize_token [OF s] tokenize_token [OF e] tokenize_join [OF a]
        tokenize_join [OF b]) simp
qed

lemma chunkLoop_marked:
  fixes cs ov :: nat
  assumes "ov < cs"
  shows "0 < start \<Longrightarrow> start + ov < length tokens \<Longrightarrow>
     chunkLoop tokens (int cs) (int ov) (int start) chunks =
       Some (chunks @ map (markedChunk ov) (windowsFrom tokens cs (cs - ov) start))"
proof (induction "length tokens - start" arbitrary: start chunks rule: less_induct)
  case less
  let ?n = "length tokens"
  let ?e = "min (start + cs) ?n"
  have se: "start \<le> ?e" "?e \<le> ?n" using less.prems by auto
  have e_int: "min (int start + int cs) (int ?n) = int ?e" by simp
  have cur: "slice tokens (int start) (int ?e) = take (?e - start) (drop start tokens)"
    using slice_nat [OF se] .
  let ?w = "take (?e - start) (drop start tokens)"
  have lw: "length ?w = ?e - start" using less.prems by auto
  have ovw: "ov < length ?w" using less.prems assms by (auto simp: min_def)
  have s1: "slice ?w 0 (int ov) = take ov ?w"
    using slice_nat [of 0 ov ?w] ovw by simp
  have s2: "slice ?w (int ov) (int (length ?w)) = drop ov ?w"
    using slice_nat [of ov "length ?w" ?w] ovw by simp
  have chunk: "(if int start > 0 \<and> int (length ?w) > int ov then
                  ''<OVERLAP_START> '' @ join (slice ?w 0 (int ov)) @
                  '' <OVERLAP_END> '' @
                  join (slice ?w (int ov) (int (length ?w)))
                else join ?w) = markedChunk ov ?w"
    using less.prems ovw by (simp only: s1 s2 markedChunk_def) simp
  show ?case
  proof (cases "?n \<le> start + cs")
    case True
    then have e: "?e = ?n" by simp
    have w: "windowsFrom tokens cs (cs - ov) start = [drop start tokens]"
      using True less.prems assms by (simp add: windowsFrom.simps)
    have "chunkLoop tokens (int cs) (int ov) (int start) chunks =
            Some (chunks @ [markedChunk ov ?w])"
      apply (subst chunkLoop.simps)
      apply (simp only: Let_def e_int cur chunk)
      using less.prems e by simp
    then show ?thesis using w e by simp
  next
    case False
    then have e: "?e = start + cs" by simp
    have w: "windowsFrom tokens cs (cs - ov) start =
        take cs (drop start tokens) # windowsFrom tokens cs (cs - ov) (start + (cs - ov))"
      using False less.prems assms by (simp add: windowsFrom.simps)
    have next_start: "int ?e - int ov = int (start + (cs - ov))"
      using e assms by simp
    have IH: "chunkLoop tokens (int cs) (int ov) (int (start + (cs - ov))) (chunks @ [markedChunk ov ?w]) =
        Some ((chunks @ [markedChunk ov ?w]) @
          map (markedChunk ov) (windowsFrom tokens cs (cs - ov) (start + (cs - ov))))"
      using less.hyps [of "start + (cs - ov)" "chunks @ [markedChunk ov ?w]"] False less.prems assms
      by simp
    have "chunkLoop tokens (int cs) (int ov) (int start) chunks =
        chunkLoop tokens (int cs) (int ov) (int (start + (cs - ov))) (chunks @ [markedChunk ov ?w])"
      apply (subst chunkLoop.simps)
      apply (simp only: Let_def e_int cur chunk next_start)
      using less.prems False by simp
    then show ?thesis using IH w e by simp
  qed
qed

lemma chunkLoop_first:
  fixes cs ov :: nat
  assumes "ov < cs"
  shows "chunkLoop tokens (int cs) (int ov) 0 [] =
           Some (render ov (windowsFrom tokens cs (cs - ov) 0))"
proof (cases "tokens = []")
  case True
  then show ?thesis
    by (subst chunkLoop.simps) (simp add: windowsFrom.simps)
next
  case False
  let ?n = "length tokens"
  have pos: "0 < ?n" using False by simp
  show ?thesis
  proof (cases "?n \<le> cs")
    case True
    have w: "windowsFrom tokens cs (cs - ov) 0 = [tokens]"
      using True pos assms by (simp add: windowsFrom.simps)
    have e: "min (0 + int cs) (int ?n) = int ?n" using True by simp
    have cur: "slice tokens 0 (int ?n) = tokens"
      using slice_nat [of 0 ?n tokens] by simp
    have "chunkLoop tokens (int cs) (int ov) 0 [] = Some [join tokens]"
      apply (subst chunkLoop.simps)
      apply (simp only: Let_def e cur)
      using pos by simp
    then show ?thesis using w by simp
  next
    case False
    have w: "windowsFrom tokens cs (cs - ov) 0 =
        take cs tokens # windowsFrom tokens cs (cs - ov) (cs - ov)"
      using False pos assms by (simp add: windowsFrom.simps)
    have e: "min (0 + int cs) (int ?n) = int cs" using False by simp
    have cur: "slice tokens 0 (int cs) = take cs tokens"
      using slice_nat [of 0 cs tokens] False by simp
    have nxt: "int cs - int ov = int (cs - ov)" using assms by simp
    have "chunkLoop tokens (int cs) (int ov) 0 [] =
        chunkLoop tokens (int cs) (int ov) (int (cs - ov)) ([] @ [join (take cs tokens)])"
      apply (subst chunkLoop.simps)
      apply (simp only: Let_def e cur nxt)
      using pos False by simp
    also have "\<dots> = Some (([] @ [join (take cs tokens)]) @
        map (markedChunk ov) (windowsFrom tokens cs (cs - ov) (cs - ov)))"
      using chunkLoop_marked [OF assms, of "cs - ov" tokens] assms False by simp
    finally show ?thesis using w by simp
  qed
qed

lemma splitIntoChunks_windows:
  assumes "0 \<le> overlap" "overlap < chunkSize"
  shows "splitIntoChunks text chunkSize overlap =
     Some (render (nat overlap)
       (windowsFrom (tokenize text) (nat chunkSize) (nat chunkSize - nat overlap) 0))"
proof -
  have "nat overlap < nat chunkSize" using assms by simp
  from chunkLoop_first [OF this, of "tokenize text"] assms
  show ?thesis by (simp add: splitIntoChunks_def)
qed

lemma windowsFrom_concat_drop:
  fixes cs ov :: nat
  assumes "ov < cs"
  shows "start + ov \<le> length tokens \<Longrightarrow>
     concat (map (drop ov) (windowsFrom tokens cs (cs - ov) start)) = drop (start + ov) tokens"
proof (induction "length tokens - start" arbitrary: start rule: less_induct)
  case less
  show ?case
  proof (cases "length tokens \<le> start")
    case True
    then show ?thesis by (simp add: windowsFrom.simps)
  next
    case False
    note lt = this
    show ?thesis
    proof (cases "length tokens \<le> start + cs")
      case True
      with lt assms show ?thesis by (simp add: windowsFrom.simps add.commute)
    next
      case False
      have w: "windowsFrom tokens cs (cs - ov) start =
          take cs (drop start tokens) # windowsFrom tokens cs (cs - ov) (start + (cs - ov))"
        using False lt assms by (simp add: windowsFrom.simps)
      have IH: "concat (map (drop ov) (windowsFrom tokens cs (cs - ov) (start + (cs - ov)))) =
          drop (start + (cs - ov) + ov) tokens"
        using less.hyps [of "start + (cs - ov)"] False lt assms by simp
      have d1: "drop ov (take cs (drop start tokens)) = take (cs - ov) (drop (start + ov) tokens)"
        by (simp add: drop_take add.commute)
      have d2: "drop (start + (cs - ov) + ov) tokens = drop (cs - ov) (drop (start + ov) tokens)"
        using assms by (simp add: add.commute add.left_commute)
      have "concat (map (drop ov) (windowsFrom tokens cs (cs - ov) start)) =
          drop ov (take cs (drop start tokens)) @
          concat (map (drop ov) (windowsFrom tokens cs (cs - ov) (start + (cs - ov))))"
        using w by simp
      also have "\<dots> = take (cs - ov) (drop (start + ov) tokens) @
          drop (cs - ov) (drop (start + ov) tokens)"
        by (simp only: d1 IH d2)
      also have "\<dots> = drop (start + ov) tokens"
        by (rule append_take_drop_id)
      finally show ?thesis .
    qed
  qed
qed

lemma windowsFrom_props:
  fixes cs ov :: nat
  assumes "ov < cs"
  shows "start + ov < length tokens \<or> start = 0 \<Longrightarrow>
     \<forall>w \<in> set (windowsFrom tokens cs (cs - ov) start).
        length w \<le> cs \<and> set w \<subseteq> set tokens \<and> (0 < start \<longrightarrow> ov < length w)"
proof (induction "length tokens - start" arbitrary: start rule: less_induct)
  case less
  show ?case
  proof (cases "length tokens \<le> start")
    case True
    then show ?thesis by (simp add: windowsFrom.simps)
  next
    case False
    note lt = this
    show ?thesis
    proof (cases "length tokens \<le> start + cs")
      case True
      with lt assms less.prems show ?thesis
        by (auto simp: windowsFrom.simps dest: in_set_dropD)
    next
      case False
      have w: "windowsFrom tokens cs (cs - ov) start =
          take cs (drop start tokens) # windowsFrom tokens cs (cs - ov) (start + (cs - ov))"
        using False lt assms by (simp add: windowsFrom.simps)
      have IH: "\<forall>w \<in> set (windowsFrom tokens cs (cs - ov) (start + (cs - ov))).
          length w \<le> cs \<and> set w \<subseteq> set tokens \<and> (0 < start + (cs - ov) \<longrightarrow> ov < length w)"
        using less.hyps [of "start + (cs - ov)"] False lt assms by simp
      have "set (take cs (drop start tokens)) \<subseteq> set tokens"
        by (meson in_set_dropD in_set_takeD subsetI)
      moreover have "length (take cs (drop start tokens)) = cs" using False by simp
      ultimately show ?thesis using w IH assms by auto
    qed
  qed
qed

lemma demark_markedChunk:
  assumes "\<forall>t \<in> set w. is_token t" "ov < length w"
  shows "demark ov (markedChunk ov w) = Some (take ov w, drop ov w)"
proof -
  let ?ts = "''<OVERLAP_START>'' # take ov w @ ''<OVERLAP_END>'' # drop ov w"
  have t: "tokenize (markedChunk ov w) = ?ts" using tokenize_markedChunk [OF assms(1)] .
  have l: "length (take ov w) = ov" using assms(2) by simp
  have a: "ov + 2 \<le> length ?ts" using assms(2) by simp
  have b: "?ts ! (ov + 1) = ''<OVERLAP_END>''"
    using l by (simp add: nth_append)
  have c: "drop (ov + 2) ?ts = drop ov w" using l by simp
  have d: "take ov (tl ?ts) = take ov w" using l by simp
  show ?thesis unfolding demark_def t Let_def using a b c d by simp
qed

lemma countTokens_tokenize: "countTokens text = length (tokenize text)"
  by (simp add: countTokens_def tokenize_def)

lemma destitch_step:
  "demark ov c = Some (dup, rest) \<Longrightarrow> dup = drop (length acc - ov) acc \<Longrightarrow>
     destitch ov acc (c # cs) = destitch ov (acc @ rest) cs"
  by simp

lemma destitch_windows:
  fixes cs ov :: nat
  assumes "ov < cs" and tok: "\<forall>t \<in> set tokens. is_token t"
  shows "0 < start \<Longrightarrow> start + ov < length tokens \<Longrightarrow>
     destitch ov (take (start + ov) tokens)
       (map (markedChunk ov) (windowsFrom tokens cs (cs - ov) start)) = Some tokens"
proof (induction "length tokens - start" arbitrary: start rule: less_induct)
  case less
  let ?acc = "take (start + ov) tokens"
  have len: "length ?acc = start + ov" using less.prems by simp
  have "drop start ?acc = take ov (drop start tokens)"
    by (simp add: drop_take)
  then have acc: "take ov (drop start tokens) = drop (length ?acc - ov) ?acc"
    by (simp only: len add_diff_cancel_right')
  show ?case
  proof (cases "length tokens \<le> start + cs")
    case True
    let ?w = "drop start tokens"
    have w: "windowsFrom tokens cs (cs - ov) start = [?w]"
      using True less.prems assms(1) by (simp add: windowsFrom.simps)
    have "\<forall>t \<in> set ?w. is_token t" using tok by (auto dest: in_set_dropD)
    moreover have "ov < length ?w" using less.prems by simp
    ultimately have d: "demark ov (markedChunk ov ?w) = Some (take ov ?w, drop ov ?w)"
      by (rule demark_markedChunk)
    have "destitch ov ?acc [markedChunk ov ?w] = destitch ov (?acc @ drop ov ?w) []"
      using d acc by (rule destitch_step)
    moreover have "?acc @ drop ov ?w = tokens"
      by (simp add: add.commute)
    ultimately show ?thesis unfolding w by simp
  next
    case False
    let ?w = "take cs (drop start tokens)"
    let ?next = "start + (cs - ov)"
    let ?rest = "map (markedChunk ov) (windowsFrom tokens cs (cs - ov) ?next)"
    have w: "windowsFrom tokens cs (cs - ov) start =
        ?w # windowsFrom tokens cs (cs - ov) ?next"
      using False less.prems assms(1) by (simp add: windowsFrom.simps)
    have "\<forall>t \<in> set ?w. is_token t"
      using tok by (meson in_set_dropD in_set_takeD)
    moreover have "ov < length ?w" using False assms(1) by simp
    ultimately have d: "demark ov (markedChunk ov ?w) = Some (take ov ?w, drop ov ?w)"
      by (rule demark_markedChunk)
    have "take ov ?w = take ov (drop start tokens)"
      using assms(1) by (simp add: min_def)
    then have dup: "take ov ?w = drop (length ?acc - ov) ?acc" using acc by simp
    have step: "destitch ov ?acc (markedChunk ov ?w # ?rest) = destitch ov (?acc @ drop ov ?w) ?rest"
      using d dup by (rule destitch_step)
    have "drop ov ?w = take (cs - ov) (drop (start + ov) tokens)"
      by (simp add: drop_take add.commute)
    then have "?acc @ drop ov ?w = take (start + ov + (cs - ov)) tokens"
      by (simp only: take_add)
    moreover have "start + ov + (cs - ov) = ?next + ov" by simp
    ultimately have app: "?acc @ drop ov ?w = take (?next + ov) tokens" by simp
    have IH: "destitch ov (take (?next + ov) tokens) ?rest = Some tokens"
      using less.hyps [of ?next] False less.prems assms(1) by simp
    show ?thesis unfolding w list.map step app IH ..
  qed
qed

lemma reconstruct_render:
  fixes cs ov :: nat
  assumes "ov < cs" and tok: "\<forall>t \<in> set tokens. is_token t"
  shows "reconstruct ov (render ov (windowsFrom tokens cs (cs - ov) 0)) = Some tokens"
proof (cases "length tokens \<le> cs")
  case True
  show ?thesis
  proof (cases "tokens = []")
    case True
    then show ?thesis by (simp add: windowsFrom.simps)
  next
    case False
    with True assms have "windowsFrom tokens cs (cs - ov) 0 = [tokens]"
      by (simp add: windowsFrom.simps)
    then show ?thesis using tokenize_join [OF tok] by simp
  qed
next
  case False
  let ?rest = "windowsFrom tokens cs (cs - ov) (cs - ov)"
  have "tokens \<noteq> []" using False by auto
  then have w: "windowsFrom tokens cs (cs - ov) 0 = take cs tokens # ?rest"
    using False assms by (simp add: windowsFrom.simps)
  have "\<forall>t \<in> set (take cs tokens). is_token t" using tok by (auto dest: in_set_takeD)
  then have tj: "tokenize (join (take cs tokens)) = take cs tokens" by (rule tokenize_join)
  have "destitch ov (take (cs - ov + ov) tokens) (map (markedChunk ov) ?rest) = Some tokens"
    using destitch_windows [OF assms, of "cs - ov"] False assms(1) by simp
  then have "destitch ov (take cs tokens) (map (markedChunk ov) ?rest) = Some tokens"
    using assms(1) by simp
  then show ?thesis unfolding w render.simps reconstruct.simps tj .
qed

lemma chunkLoop_stuck:
  assumes "chunkLoop tokens chunkSize overlap start chunks = Some y"
  shows "\<not> (chunkSize \<le> overlap \<and> chunkSize < int (length tokens) \<and> start \<le> 0 \<and> tokens \<noteq> [])"
proof (rule chunkLoop.raw_induct [where P = "\<lambda>tokens chunkSize overlap start chunks y.
    \<not> (chunkSize \<le> overlap \<and> chunkSize < int (length tokens) \<and> start \<le> 0 \<and> tokens \<noteq> [])",
    OF _ assms])
  fix f :: "string list \<Rightarrow> int \<Rightarrow> int \<Rightarrow> int \<Rightarrow> string list \<Rightarrow> string list option"
    and tokens chunkSize overlap start chunks y
  assume IH: "\<And>tokens chunkSize overlap start chunks y. f tokens chunkSize overlap start chunks = Some y \<Longrightarrow>
      \<not> (chunkSize \<le> overlap \<and> chunkSize < int (length tokens) \<and> start \<le> 0 \<and> tokens \<noteq> [])"
  assume step: "(if start < int (length tokens) then
        (let end = min (start + chunkSize) (int (length tokens));
             currentTokens = slice tokens start end;
             chunk =
               (if start > 0 \<and> int (length currentTokens) > overlap then
                  ''<OVERLAP_START> '' @ join (slice currentTokens 0 overlap) @
                  '' <OVERLAP_END> '' @
                  join (slice currentTokens overlap (int (length currentTokens)))
                else join currentTokens);
             chunks' = chunks @ [chunk]
         in if end = int (length tokens) then Some chunks'
            else f tokens chunkSize overlap (end - overlap) chunks')
      else Some chunks) = Some y"
  show "\<not> (chunkSize \<le> overlap \<and> chunkSize < int (length tokens) \<and> start \<le> 0 \<and> tokens \<noteq> [])"
  proof
    assume inv: "chunkSize \<le> overlap \<and> chunkSize < int (length tokens) \<and> start \<le> 0 \<and> tokens \<noteq> []"
    then have "0 < int (length tokens)" by simp
    with inv have lt: "start < int (length tokens)" by linarith
    have e: "min (start + chunkSize) (int (length tokens)) = start + chunkSize"
      using inv by auto
    have ne: "start + chunkSize \<noteq> int (length tokens)" using inv by auto
    from step obtain c where "f tokens chunkSize overlap (start + chunkSize - overlap) c = Some y"
      unfolding Let_def e using lt ne by (simp split: if_splits)
    from IH [OF this] inv show False by auto
  qed
qed

subsection \<open>Chunks, windows and token counts\<close>

lemma chunkLoop_tokens25:
  "chunkLoop tokens25 10 3 0 [] = Some
     [''t1 t2 t3 t4 t5 t6 t7 t8 t9 t10'',
      ''<OVERLAP_START> t8 t9 t10 <OVERLAP_END> t11 t12 t13 t14 t15 t16 t17'',
      ''<OVERLAP_START> t15 t16 t17 <OVERLAP_END> t18 t19 t20 t21 t22 t23 t24'',
      ''<OVERLAP_START> t22 t23 t24 <OVERLAP_END> t25'']"
  by (simp add: tokens25_def chunkLoop.simps slice_def)

lemma tokenize_text25:
  "tokenize ''t1 t2 t3 t4 t5 t6 t7 t8 t9 t10 t11 t12 t13 t14 t15 t16 t17 t18 t19 t20 t21 t22 t23 t24 t25'' = tokens25"
  by (simp add: tokenize_def tokens25_def is_space_def split_ws.simps)

lemma in_set_tl: "x \<in> set (tl xs) \<Longrightarrow> x \<in> set xs"
  by (cases xs) simp_all

lemma render_tl: "tl (render ov ws) = map (markedChunk ov) (tl ws)"
  by (cases ws) simp_all

lemma render_hd: "ws \<noteq> [] \<Longrightarrow> hd (render ov ws) = join (hd ws)"
  by (cases ws) simp_all

lemma render_Nil: "render ov ws = [] \<longleftrightarrow> ws = []"
  by (cases ws) simp_all

lemma windowsFrom_butlast:
  "\<forall>w \<in> set (butlast (windowsFrom tokens sz step start)). length w = sz"
proof (induction tokens sz step start rule: windowsFrom.induct)
  case (1 tokens sz step start)
  show ?case
  proof (cases "step = 0 \<or> length tokens \<le> start")
    case True
    then show ?thesis by (simp add: windowsFrom.simps)
  next
    case False
    note a = this
    show ?thesis
    proof (cases "length tokens \<le> start + sz")
      case True
      with a show ?thesis by (simp add: windowsFrom.simps)
    next
      case False
      have w: "windowsFrom tokens sz step start =
          take sz (drop start tokens) # windowsFrom tokens sz step (start + step)"
        using a False by (simp add: windowsFrom.simps)
      have "length (take sz (drop start tokens)) = sz" using False by simp
      with 1 [OF a False] show ?thesis unfolding w by (auto dest: in_set_butlastD)
    qed
  qed
qed

lemma countTokens_markedChunk:
  assumes "\<forall>t \<in> set w. is_token t"
  shows "countTokens (markedChunk ov w) = length w + 2"
  by (simp add: countTokens_tokenize tokenize_markedChunk [OF assms])

subsection \<open>Output names\<close>

lemma endsWith_iff: "endsWith s suf \<longleftrightarrow> (\<exists>p. s = p @ suf)"
proof
  assume "endsWith s suf"
  then have "s = take (length s - length suf) s @ suf"
    by (metis append_take_drop_id endsWith_def)
  then show "\<exists>p. s = p @ suf" ..
next
  assume "\<exists>p. s = p @ suf"
  then show "endsWith s suf" by (auto simp: endsWith_def)
qed

lemma toLowerCase_txt: "toLowerCase ''.txt'' = ''.txt''"
  by (simp add: toLowerCase_def lowerChar_def)

lemma endsWith_toLowerCase:
  "endsWith s suf \<Longrightarrow> endsWith (toLowerCase s) (toLowerCase suf)"
  by (auto simp: endsWith_iff toLowerCase_def)

lemma outputFileName_lower: "endsWith (toLowerCase (outputFileName baseName)) ''.txt''"
proof (cases "endsWith (toLowerCase baseName) ''.txt''")
  case True
  then show ?thesis by (simp add: outputFileName_def)
next
  case False
  then have eq: "outputFileName baseName = baseName @ ''.txt''"
    by (simp add: outputFileName_def)
  have "endsWith (baseName @ ''.txt'') ''.txt''" unfolding endsWith_iff by blast
  from endsWith_toLowerCase [OF this] show ?thesis
    by (simp only: eq toLowerCase_txt)
qed

lemma outputFileName_idem: "outputFileName (outputFileName baseName) = outputFileName baseName"
  using outputFileName_lower [of baseName] by (simp add: outputFileName_def [of "outputFileName baseName"])

lemma outputFileName_double:
  assumes "endsWith (outputFileName baseName) ''.txt.txt''"
  shows "endsWith baseName ''.txt.txt''"
proof (cases "endsWith (toLowerCase baseName) ''.txt''")
  case True
  with assms show ?thesis by (simp add: outputFileName_def)
next
  case False
  with assms have "endsWith (baseName @ ''.txt'') (''.txt'' @ ''.txt'')"
    by (simp add: outputFileName_def)
  then obtain p where "baseName @ ''.txt'' = (p @ ''.txt'') @ ''.txt''"
    unfolding endsWith_iff by auto
  then have "baseName = p @ ''.txt''" by (simp only: append_same_eq)
  then have "endsWith baseName ''.txt''" unfolding endsWith_iff by blast
  from endsWith_toLowerCase [OF this] False show ?thesis
    by (simp only: toLowerCase_txt)
qed

subsection \<open>The file name pattern\<close>

text \<open>
  \<open>matchFile\<close> decides the regular expression: a name matches exactly when it is a base
  name without line terminator, a hyphen, a non-empty run of digits and the extension, and
  the two groups are the base name and the digits.
\<close>

lemma is_digit_hyphen: "\<not> is_digit CHR ''-''"
  by (simp add: is_digit_def)

lemma matchFile_intro:
  assumes "digits \<noteq> []" "list_all is_digit digits" "\<not> list_ex is_line_terminator baseName"
  shows "matchFile ext (baseName @ ''-'' @ digits @ ext) = Some (baseName, digits)"
proof -
  let ?file = "baseName @ ''-'' @ digits @ ext"
  have e: "endsWith ?file ext" unfolding endsWith_iff by (rule exI [of _ "baseName @ ''-'' @ digits"]) simp
  have stem: "take (length ?file - length ext) ?file = baseName @ ''-'' @ digits" by simp
  have "takeWhile is_digit (rev digits @ CHR ''-'' # rev baseName) =
      rev digits @ takeWhile is_digit (CHR ''-'' # rev baseName)"
    using assms(2) by (intro takeWhile_append2) (simp add: list_all_iff)
  then have "takeWhile is_digit (rev (baseName @ ''-'' @ digits)) = rev digits"
    using is_digit_hyphen by simp
  then have d: "rev (takeWhile is_digit (rev (baseName @ ''-'' @ digits))) = digits" by simp
  have pre: "take (length (baseName @ ''-'' @ digits) - length digits) (baseName @ ''-'' @ digits) =
      baseName @ ''-''" by simp
  show ?thesis
    unfolding matchFile_def Let_def stem d pre using e assms(1) assms(3) by simp
qed

lemma matchFile_elim:
  assumes "matchFile ext file = Some (baseName, digits)"
  shows "file = baseName @ ''-'' @ digits @ ext \<and> digits \<noteq> [] \<and> list_all is_digit digits \<and>
         \<not> list_ex is_line_terminator baseName"
proof -
  let ?stem = "take (length file - length ext) file"
  let ?digits = "rev (takeWhile is_digit (rev ?stem))"
  let ?pre = "take (length ?stem - length ?digits) ?stem"
  from assms have e: "endsWith file ext"
    by (simp add: matchFile_def split: if_splits)
  with assms have c: "?digits \<noteq> []" "?pre \<noteq> []" "last ?pre = CHR ''-''"
    "\<not> list_ex is_line_terminator (butlast ?pre)" "baseName = butlast ?pre" "digits = ?digits"
    by (simp_all add: matchFile_def Let_def split: if_splits)
  from e have fl: "file = ?stem @ ext"
    by (metis append_take_drop_id endsWith_def)
  have "rev ?stem = takeWhile is_digit (rev ?stem) @ dropWhile is_digit (rev ?stem)" by simp
  then have "?stem = rev (dropWhile is_digit (rev ?stem)) @ ?digits"
    by (metis rev_append rev_rev_ident)
  then have stem: "?stem = ?pre @ ?digits"
    by (metis append_eq_conv_conj length_rev length_append add_diff_cancel_right')
  have pre: "?pre = butlast ?pre @ ''-''"
    using c(2) c(3) by (metis append_butlast_last_id)
  have dig: "list_all is_digit ?digits"
    by (auto simp: list_all_iff dest: set_takeWhileD)
  have "file = (butlast ?pre @ ''-'') @ ?digits @ ext"
    using fl stem pre by (metis append_assoc)
  then show ?thesis using c(1) c(4) c(5) c(6) dig by simp
qed

lemma matchFile_iff:
  "matchFile ext file = Some (baseName, digits) \<longleftrightarrow>
     file = baseName @ ''-'' @ digits @ ext \<and> digits \<noteq> [] \<and> list_all is_digit digits \<and>
     \<not> list_ex is_line_terminator baseName"
  using matchFile_intro matchFile_elim by blast

subsection \<open>The stitcher\<close>

lemma toNumber_small: "n < 2 ^ 53 \<Longrightarrow> toNumber n = enat n"
  by (simp add: toNumber_def)

text \<open>
  Above \<open>2^53\<close> the index read from a name is rounded: two names with different digits
  can carry the same index.
\<close>

lemma parseInt_rounds:
  "parseInt ''9007199254740993'' = enat 9007199254740992 \<and>
   parseInt ''9007199254740992'' = enat 9007199254740992 \<and>
   parseInt ''9007199254740995'' = enat 9007199254740996"
  by (simp add: parseInt_def toNumber_def Let_def bitlen.simps)

lemma sort_key_unique:
  assumes "distinct (map f xs)" "mset ys = mset xs" "sorted (map f ys)"
  shows "sort_key f xs = ys"
proof -
  have set_eq: "set ys = set xs" using assms(2) by (rule mset_eq_setD)
  have inj: "inj_on f (set xs)" using assms(1) by (simp add: distinct_map)
  have "mset (map f (sort_key f xs)) = mset (map f ys)"
    using assms(2) by simp
  moreover have "sorted (map f (sort_key f xs))" by simp
  ultimately have "map f (sort_key f xs) = map f ys"
    using assms(3) by (metis properties_for_sort)
  moreover have "inj_on f (set (sort_key f xs) \<union> set ys)"
    using inj set_eq by simp
  ultimately show ?thesis by (simp add: inj_on_map_eq_map)
qed

lemma stitchFiles_eq:
  "stitchFiles e files (t, st) =
     (t @ concat (map (chunkText e) files), st\<lparr>console := console st @ readErrors e files\<rparr>)"
proof (induction files arbitrary: t st)
  case Nil
  then show ?case by (simp add: readErrors_def)
next
  case (Cons f files)
  show ?case
  proof (cases "readFile e (ChunkInfo.fileName f)")
    case None
    then show ?thesis
      by (simp add: Cons.IH chunkText_def readErrors_def say_def)
  next
    case (Some content)
    then show ?thesis
      by (simp add: Cons.IH chunkText_def readErrors_def)
  qed
qed

lemma stitchGroup_sorted:
  "stitchGroup e (baseName, files) st = stitchedInOrder e baseName (sort_key chunk files) st"
  by (cases st) (simp add: stitchFiles_eq stitchedInOrder_def say_def Let_def)

lemma groupChunkFiles_env6:
  "groupChunkFiles [''d-10.txt'', ''d-3.txt'', ''d-1.txt'', ''d-2.txt''] ([], initial) =
     ([(''d'', files312)], initial)"
  by (simp add: files312_def matchFile_def endsWith_def is_digit_def is_line_terminator_def
      parseInt_def toNumber_small one_enat_def numeral_eq_enat pushToGroup_def Let_def)

lemma stitchFiles_keeps:
  "stitchFiles e files (t, st) = (t', st') \<Longrightarrow>
     written st' = written st \<and> stitchMetadata st' = stitchMetadata st"
  by (induction files arbitrary: t st) (auto simp: say_def split: option.splits)

lemma stitchGroup_recorded:
  assumes "recorded_is_written st"
  shows "recorded_is_written (stitchGroup e g st)"
proof -
  obtain baseName unsorted where g: "g = (baseName, unsorted)" by (cases g)
  obtain t st1 where sf: "stitchFiles e (sort_key chunk unsorted) ([], st) = (t, st1)"
    by (cases "stitchFiles e (sort_key chunk unsorted) ([], st)")
  from stitchFiles_keeps [OF sf] assms have "recorded_is_written st1"
    by (simp add: recorded_is_written_def)
  then show ?thesis
    unfolding g stitchGroup.simps Let_def sf prod.case
    by (simp add: recorded_is_written_def say_def)
qed

lemma fold_stitchGroup_recorded:
  "recorded_is_written st \<Longrightarrow> recorded_is_written (fold (stitchGroup e) groups st)"
  by (induction groups arbitrary: st) (simp_all add: stitchGroup_recorded)

lemma groupChunkFiles_keeps:
  "groupChunkFiles names (groups, st) = (groups', st') \<Longrightarrow>
     written st' = written st \<and> stitchMetadata st' = stitchMetadata st"
  by (induction names arbitrary: groups st) (auto simp: say_def Let_def split: option.splits)

lemma stitchMain_recorded: "recorded_is_written (stitchMain e)"
proof (cases "readdir e")
  case None
  then show ?thesis
    by (simp add: stitchMain_def recorded_is_written_def say_def initial_def)
next
  case (Some names)
  obtain groups st where gr: "groupChunkFiles names ([], initial) = (groups, st)"
    by (cases "groupChunkFiles names ([], initial)")
  from groupChunkFiles_keeps [OF gr] have "recorded_is_written st"
    by (simp add: recorded_is_written_def initial_def)
  then show ?thesis
    unfolding stitchMain_def Some option.case gr prod.case Let_def
    by (rule fold_stitchGroup_recorded)
qed

subsection \<open>The re-indexer\<close>

lemma mergeFiles_wellFormed:
  "\<forall>f \<in> set files. chunksOf e parse f \<noteq> None \<Longrightarrow>
     mergeFiles e parse files (acc, st) = Inr (acc @ concat (map (fileChunks e parse) files), st)"
proof (induction files arbitrary: acc)
  case Nil
  then show ?case by simp
next
  case (Cons f files)
  from Cons.prems obtain chunks where c: "chunksOf e parse f = Some chunks" by auto
  then obtain content kvs where
    r: "readFile e (fileName f) = Some content" and
    p: "parse content = Some (JObj kvs)" and
    k: "map_of kvs ''chunks'' = Some (JArr chunks)"
    by (auto simp: chunksOf_def split: option.splits json.splits)
  have fc: "fileChunks e parse f = chunks" using c by (simp add: fileChunks_def)
  have "mergeFiles e parse (f # files) (acc, st) = mergeFiles e parse files (acc @ chunks, st)"
    by (simp add: r p k)
  also have "\<dots> = Inr ((acc @ chunks) @ concat (map (fileChunks e parse) files), st)"
    using Cons.prems by (intro Cons.IH) simp
  finally show ?case by (simp add: fc)
qed

text \<open>
  A file that cannot be read, does not parse, or parses to a value other than \<^verbatim>\<open>null\<close>
  without a \<^verbatim>\<open>chunks\<close> array is skipped with a message.
\<close>

lemma mergeFiles_skips:
  assumes "chunksOf e parse f = None"
    and "\<forall>content. readFile e (fileName f) = Some content \<longrightarrow> parse content \<noteq> Some JNull"
  shows "\<exists>m. mergeFiles e parse (f # rest) (acc, st) = mergeFiles e parse rest (acc, say m st)"
proof (cases "readFile e (fileName f)")
  case None
  then show ?thesis by auto
next
  case (Some content)
  note r = this
  show ?thesis
  proof (cases "parse content")
    case None
    with r show ?thesis by auto
  next
    case (Some jsonData)
    with r assms(2) have nn: "jsonData \<noteq> JNull" by auto
    from assms(1) r Some have "\<forall>cs. getChunks jsonData \<noteq> Inr (Some (JArr cs))"
      by (cases jsonData) (auto simp: chunksOf_def split: option.splits json.splits)
    moreover from nn have "\<forall>x. getChunks jsonData \<noteq> Inl x" by (cases jsonData) auto
    ultimately show ?thesis using r Some
      by (auto split: sum.splits option.splits json.splits)
  qed
qed

lemma reindexChunks_nth:
  "i < length cs \<Longrightarrow> reindexChunks cs ! i = setChunkNumber (int i + 1) (cs ! i)"
  by (simp add: reindexChunks_def setChunkNumber_def nth_enumerate_eq)

lemma length_reindexChunks: "length (reindexChunks cs) = length cs"
  by (simp add: reindexChunks_def)

lemma chunkNumberOf_setChunkNumber: "chunkNumberOf (setChunkNumber n c) = Some (JNum n)"
  by (simp add: chunkNumberOf_def setChunkNumber_def update_conv')

lemma chunkNumbers_reindexChunks:
  "map chunkNumberOf (reindexChunks cs) = map (\<lambda>n. Some (JNum (int n))) [1..<Suc (length cs)]"
proof (rule nth_equalityI)
  show "length (map chunkNumberOf (reindexChunks cs)) =
        length (map (\<lambda>n. Some (JNum (int n))) [1..<Suc (length cs)])"
    by (simp add: length_reindexChunks del: upt_Suc)
next
  fix i assume "i < length (map chunkNumberOf (reindexChunks cs))"
  then have i: "i < length cs" by (simp add: length_reindexChunks)
  then have "int ([1..<Suc (length cs)] ! i) = int i + 1"
    using nth_upt [of 1 i "Suc (length cs)"] by simp
  with i show "map chunkNumberOf (reindexChunks cs) ! i =
      map (\<lambda>n. Some (JNum (int n))) [1..<Suc (length cs)] ! i"
    by (simp add: length_reindexChunks reindexChunks_nth chunkNumberOf_setChunkNumber
        del: upt_Suc of_nat_Suc)
qed

lemma reindexChunks_numbered:
  assumes "list_all is_object cs"
    and "map chunkNumberOf cs = map (\<lambda>n. Some (JNum (int n))) [1..<Suc (length cs)]"
  shows "reindexChunks cs = cs"
proof (rule nth_equalityI)
  show "length (reindexChunks cs) = length cs" by (rule length_reindexChunks)
next
  fix i assume "i < length (reindexChunks cs)"
  then have i: "i < length cs" by (simp add: length_reindexChunks)
  with assms(1) have "is_object (cs ! i)" by (simp add: list_all_length)
  then obtain kvs where k: "cs ! i = JObj kvs" by (cases "cs ! i") simp_all
  have "int ([1..<Suc (length cs)] ! i) = int i + 1"
    using i nth_upt [of 1 i "Suc (length cs)"] by simp
  moreover have "chunkNumberOf (cs ! i) =
      map (\<lambda>n. Some (JNum (int n))) [1..<Suc (length cs)] ! i"
    using i nth_map [of i cs chunkNumberOf] by (simp only: assms(2))
  ultimately have "chunkNumberOf (cs ! i) = Some (JNum (int i + 1))"
    using i by (simp del: upt_Suc of_nat_Suc)
  then have "map_of kvs ''chunkNumber'' = Some (JNum (int i + 1))"
    by (simp add: chunkNumberOf_def k)
  then have "AList.update ''chunkNumber'' (JNum (int i + 1)) kvs = kvs"
    by (rule update_triv)
  with i k show "reindexChunks cs ! i = cs ! i"
    by (simp add: reindexChunks_nth setChunkNumber_def)
qed

lemma stringify_json1_neq_json2: "stringify json1 \<noteq> stringify json2"
  by (simp add: stringify_def json1_def json2_def chunkA_def chunkB_def chunkC_def
      QuoteJSONString_def quoteChar_def showInt_def showNat.simps)

lemma chunksOf_example1:
  "chunksOf envExample parseExample \<lparr>fileName = ''doc.pdf-1.json'', chunkNum = n\<rparr> =
     Some [chunkA, chunkB]"
  by (simp add: chunksOf_def envExample_def parseExample_def) (simp add: json1_def)

lemma chunksOf_example2:
  "chunksOf envExample parseExample \<lparr>fileName = ''doc.pdf-2.json'', chunkNum = n\<rparr> =
     Some [chunkC]"
  using stringify_json1_neq_json2
  by (simp add: chunksOf_def envExample_def parseExample_def) (simp add: json2_def)

lemma groupJsonFiles_example:
  "groupJsonFiles [''doc.pdf-2.json'', ''doc.pdf-1.json''] ([], initial) =
     ([(''doc.pdf'', filesExample)], initial)"
  by (simp add: filesExample_def matchFile_def endsWith_def is_digit_def is_line_terminator_def
      parseInt_def toNumber_small one_enat_def numeral_eq_enat pushToGroup_def Let_def)

lemma mergeGroup_example:
  "mergeGroup envExample parseExample filesExample st = Inr ([chunkA, chunkB, chunkC3], st)"
proof -
  have s: "sort_key chunkNum filesExample = rev filesExample"
    by (simp add: filesExample_def)
  have ok: "\<forall>f \<in> set (rev filesExample). chunksOf envExample parseExample f \<noteq> None"
    by (simp add: filesExample_def chunksOf_example1 chunksOf_example2)
  have flat: "concat (map (fileChunks envExample parseExample) (rev filesExample)) =
      [chunkA, chunkB, chunkC]"
    by (simp add: filesExample_def fileChunks_def chunksOf_example1 chunksOf_example2)
  have r: "reindexChunks [chunkA, chunkB, chunkC] = [chunkA, chunkB, chunkC3]"
    by (simp add: reindexChunks_def chunkA_def chunkB_def chunkC_def chunkC3_def)
  show ?thesis
    unfolding mergeGroup_def s mergeFiles_wellFormed [OF ok] flat
    by (simp add: r)
qed

lemma finalFileName_example: "finalFileName ''doc.pdf'' = ''doc.pdf.txt''"
  by (simp add: finalFileName_def endsWith_def toLowerCase_def lowerChar_def)

lemma reindexMain_example:
  "reindexMain envExample parseExample =
     Inr \<lparr>written = [''doc.pdf.txt'' \<mapsto> stringify2 finalExample],
          stitchMetadata = [''doc.pdf.txt'' \<mapsto> length (stringify finalExample)],
          console = [LogSaved ''doc.pdf.txt'']\<rparr>"
proof -
  have rd: "readdir envExample = Some [''doc.pdf-2.json'', ''doc.pdf-1.json'']"
    by (simp add: envExample_def)
  have wr: "writeFile envExample ''doc.pdf.txt''" by (simp add: envExample_def)
  have "reindexMain envExample parseExample =
      reindexGroups envExample parseExample [(''doc.pdf'', filesExample)] initial"
    by (simp only: reindexMain_def rd option.case groupJsonFiles_example prod.case Let_def)
  also have "\<dots> = reindexGroup envExample parseExample (''doc.pdf'', filesExample) initial"
    by (simp split: sum.splits)
  also have "\<dots> = Inr \<lparr>written = [''doc.pdf.txt'' \<mapsto> stringify2 finalExample],
          stitchMetadata = [''doc.pdf.txt'' \<mapsto> length (stringify finalExample)],
          console = [LogSaved ''doc.pdf.txt'']\<rparr>"
    unfolding reindexGroup.simps mergeGroup_example finalFileName_example
    by (simp add: wr say_def initial_def finalExample_def Let_def)
  finally show ?thesis .
qed

lemma length_stringify_example: "length (stringify finalExample) = 120"
  by (simp add: finalExample_def stringify_def chunkA_def chunkB_def chunkC3_def
      QuoteJSONString_def quoteChar_def showInt_def showNat.simps)

lemma length_stringify2_example: "length (stringify2 finalExample) = 206"
  by (simp add: finalExample_def stringify2_def chunkA_def chunkB_def chunkC3_def
      QuoteJSONString_def quoteChar_def showInt_def showNat.simps)

lemma groupJsonFiles_bad:
  "groupJsonFiles [''bad-1.json'', ''doc.pdf-2.json'', ''doc.pdf-1.json''] ([], initial) =
     ([(''bad'', [\<lparr>fileName = ''bad-1.json'', chunkNum = 1\<rparr>]), (''doc.pdf'', filesExample)],
      initial)"
  by (simp add: filesExample_def matchFile_def endsWith_def is_digit_def is_line_terminator_def
      parseInt_def toNumber_small one_enat_def numeral_eq_enat pushToGroup_def Let_def)

lemma parseExample_null: "parseExample ''null'' = Some JNull"
  by (simp add: parseExample_def stringify_def json1_def json2_def)

text \<open>
  The indented serialisation is never shorter than the compact one, and for the object the
  re-indexer writes it is longer: every file the re-indexer writes is longer than the
  length it records.
\<close>

lemma length_joinWith_mono:
  "(\<forall>x \<in> set xs. length (f x) \<le> length (g x)) \<Longrightarrow> length s \<le> length s' \<Longrightarrow>
     length (joinWith s (map f xs)) \<le> length (joinWith s' (map g xs))"
proof (induction xs rule: induct_list012)
  case 1
  then show ?case by simp
next
  case (2 x)
  then show ?case by simp
next
  case (3 x y zs)
  then have "length (joinWith s (map f (y # zs))) \<le> length (joinWith s' (map g (y # zs)))"
    by simp
  moreover have "length (f x) \<le> length (g x)" using 3 by simp
  ultimately show ?case using 3(4) by simp
qed

lemma SerializeJSON_no_gap: "SerializeJSON [] ind v = SerializeJSON [] [] v"
proof (induction v arbitrary: ind)
  case (JArr xs)
  have "map (SerializeJSON [] ind) xs = map (SerializeJSON [] []) xs"
    using JArr [of _ ind] by (intro map_cong) auto
  then show ?case by (simp add: Let_def cong: map_cong)
next
  case (JObj kvs)
  have "map (\<lambda>kv. QuoteJSONString (fst kv) @ '':'' @ SerializeJSON [] ind (snd kv)) kvs =
        map (\<lambda>kv. QuoteJSONString (fst kv) @ '':'' @ SerializeJSON [] [] (snd kv)) kvs"
  proof (rule map_cong [OF refl])
    fix kv assume "kv \<in> set kvs"
    then have "SerializeJSON [] ind (snd kv) = SerializeJSON [] [] (snd kv)"
      using JObj [OF _ snds.intros, of kv ind] by simp
    then show "QuoteJSONString (fst kv) @ '':'' @ SerializeJSON [] ind (snd kv) =
        QuoteJSONString (fst kv) @ '':'' @ SerializeJSON [] [] (snd kv)" by simp
  qed
  then show ?case by (simp add: Let_def cong: map_cong)
qed simp_all

lemma length_SerializeJSON_gap:
  "length (SerializeJSON [] [] v) \<le> length (SerializeJSON gap ind v)"
proof (cases "gap = []")
  case True
  then show ?thesis by (simp add: SerializeJSON_no_gap [of ind])
next
  case False
  note gap = this
  show ?thesis
  proof (induction v arbitrary: ind)
    case (JArr xs)
    let ?sep = "'','' @ [CHR 0x0A] @ ind @ gap"
    have "length (joinWith '','' (map (SerializeJSON [] []) xs)) \<le>
          length (joinWith ?sep (map (SerializeJSON gap (ind @ gap)) xs))"
      using JArr by (intro length_joinWith_mono) auto
    then show ?case using gap by (simp add: Let_def)
  next
    case (JObj kvs)
    let ?sep = "'','' @ [CHR 0x0A] @ ind @ gap"
    let ?f = "\<lambda>kv. QuoteJSONString (fst kv) @ '':'' @ SerializeJSON [] [] (snd kv)"
    let ?g = "\<lambda>kv. QuoteJSONString (fst kv) @ '':'' @ '' '' @ SerializeJSON gap (ind @ gap) (snd kv)"
    have "\<forall>kv \<in> set kvs. length (?f kv) \<le> length (?g kv)"
    proof
      fix kv assume "kv \<in> set kvs"
      then have "length (SerializeJSON [] [] (snd kv)) \<le>
          length (SerializeJSON gap (ind @ gap) (snd kv))"
        using JObj [OF _ snds.intros, of kv "ind @ gap"] by simp
      then show "length (?f kv) \<le> length (?g kv)" by simp
    qed
    then have "length (joinWith '','' (map ?f kvs)) \<le> length (joinWith ?sep (map ?g kvs))"
      by (intro length_joinWith_mono) auto
    then show ?case using gap by (simp add: Let_def)
  qed simp_all
qed

lemma stringify_shorter:
  "length (stringify (JObj [(k, v)])) < length (stringify2 (JObj [(k, v)]))"
  using length_SerializeJSON_gap [of v "''  ''" "''  ''"]
  by (simp add: stringify_def stringify2_def Let_def)

lemma reindexGroup_recorded_shorter:
  assumes "reindexGroup e parse (baseName, files) st = Inr st'"
    and "writeFile e (finalFileName baseName)"
  shows "\<exists>content n. written st' (finalFileName baseName) = Some content \<and>
           stitchMetadata st' (finalFileName baseName) = Some n \<and> n < length content"
proof (cases "mergeGroup e parse files st")
  case (Inl x)
  with assms(1) show ?thesis by simp
next
  case (Inr r)
  obtain merged st1 where r: "r = (merged, st1)" by (cases r)
  from assms Inr r have "st' = say (LogSaved (finalFileName baseName))
      (st1\<lparr>written := (written st1)(finalFileName baseName \<mapsto>
               stringify2 (JObj [(''chunks'', JArr merged)])),
           stitchMetadata := (stitchMetadata st1)(finalFileName baseName \<mapsto>
               length (stringify (JObj [(''chunks'', JArr merged)])))\<rparr>)"
    by (simp add: Let_def)
  then show ?thesis using stringify_shorter [of "''chunks''" "JArr merged"]
    by (simp add: say_def)
qed

section \<open>The claims\<close>

subsection \<open>The chunker\<close>

text \<open>
  Claim C1. For every text, every \<open>chunkSize > 0\<close> and every overlap with
  \<open>0 \<le> overlap < chunkSize\<close>, \<^verbatim>\<open>splitIntoChunks\<close> returns, and its chunks reconstruct
  the text's tokens: every chunk after the first consists of the start marker, \<open>overlap\<close>
  tokens that repeat the last \<open>overlap\<close> tokens read so far, the end marker and a rest, and
  the tokens of the first chunk followed by these rests are exactly the white-space tokens
  of the text, each once and in order.
\<close>

theorem chunks_reconstruct_tokens:
  assumes "0 < chunkSize" "0 \<le> overlap" "overlap < chunkSize"
  shows "\<exists>chunks. splitIntoChunks text chunkSize overlap = Some chunks \<and>
           reconstruct (nat overlap) chunks = Some (tokenize text)"
proof -
  have lt: "nat overlap < nat chunkSize" using assms by simp
  have tok: "\<forall>t \<in> set (tokenize text). is_token t" by (simp add: tokenize_is_token)
  show ?thesis
    using splitIntoChunks_windows [OF assms(2) assms(3), of "text"] reconstruct_render [OF lt tok]
    by simp
qed

theorem chunks_reconstruct_tokens_witness:
  "(0::int) < 3 \<and> (0::int) \<le> 1 \<and> (1::int) < 3 \<and>
   (\<exists>chunks. splitIntoChunks ''a b  c d e f g'' 3 1 = Some chunks \<and>
      reconstruct (nat 1) chunks = Some (tokenize ''a b  c d e f g'')) \<and>
   splitIntoChunks ''a b  c d e f g'' 3 1 =
     Some [''a b c'', ''<OVERLAP_START> c <OVERLAP_END> d e'', ''<OVERLAP_START> e <OVERLAP_END> f g''] \<and>
   tokenize ''a b  c d e f g'' = [''a'', ''b'', ''c'', ''d'', ''e'', ''f'', ''g'']"
proof -
  have h: "(0::int) < 3" "(0::int) \<le> 1" "(1::int) < 3" by simp_all
  have t: "tokenize ''a b  c d e f g'' = [''a'', ''b'', ''c'', ''d'', ''e'', ''f'', ''g'']"
    by (simp add: tokenize_def is_space_def split_ws.simps)
  have s: "splitIntoChunks ''a b  c d e f g'' 3 1 =
     Some [''a b c'', ''<OVERLAP_START> c <OVERLAP_END> d e'', ''<OVERLAP_START> e <OVERLAP_END> f g'']"
    unfolding splitIntoChunks_def t by (simp add: chunkLoop.simps slice_def)
  from chunks_reconstruct_tokens [OF h, of "''a b  c d e f g''"] h s t show ?thesis by blast
qed

text \<open>
  Claim C2, as the code has it. \<^verbatim>\<open>splitIntoChunks\<close> tests its parameters nowhere and
  raises no error. With \<open>chunkSize \<le> overlap\<close> it returns the empty sequence for a text
  without tokens, it returns the one unmarked chunk of all tokens when the text has at
  most \<open>chunkSize\<close> tokens, and on every longer text its loop never advances past the
  start and the call does not return (a run ends only when the growing array exhausts the
  memory).
\<close>

theorem no_ConfigError_guard:
  assumes "chunkSize \<le> overlap"
  shows "splitIntoChunks text chunkSize overlap =
    (if tokenize text = [] then Some []
     else if int (length (tokenize text)) \<le> chunkSize then Some [join (tokenize text)]
     else None)"
proof (cases "tokenize text = []")
  case True
  then show ?thesis
    by (simp add: splitIntoChunks_def chunkLoop.simps)
next
  case False
  note ne = this
  let ?tokens = "tokenize text"
  show ?thesis
  proof (cases "int (length ?tokens) \<le> chunkSize")
    case True
    have e: "min (0 + chunkSize) (int (length ?tokens)) = int (length ?tokens)"
      using True by simp
    have cur: "slice ?tokens 0 (int (length ?tokens)) = ?tokens"
      using slice_nat [of 0 "length ?tokens" ?tokens] by simp
    have "chunkLoop ?tokens chunkSize overlap 0 [] = Some [join ?tokens]"
      apply (subst chunkLoop.simps)
      apply (simp only: Let_def e cur)
      using ne by simp
    with ne True show ?thesis by (simp add: splitIntoChunks_def)
  next
    case False
    have "chunkLoop ?tokens chunkSize overlap 0 [] = None"
    proof (cases "chunkLoop ?tokens chunkSize overlap 0 []")
      case None
      then show ?thesis .
    next
      case (Some y)
      from chunkLoop_stuck [OF this] assms False ne show ?thesis by simp
    qed
    with ne False show ?thesis by (simp add: splitIntoChunks_def)
  qed
qed


theorem no_ConfigError_guard_witness:
  "(2::int) \<le> 2 \<and> splitIntoChunks ''a b c'' 2 2 = None"
  using no_ConfigError_guard [of 2 2 "''a b c''"]
  by (simp add: tokenize_def is_space_def split_ws.simps)

text \<open>
  Claim C2 as stated fails: with \<open>chunkSize = overlap = 5\<close> the text \<^verbatim>\<open>a b c\<close> is not
  rejected, it is returned as one chunk.
\<close>

theorem ConfigError_counterexample:
  "(5::int) \<le> 5 \<and> splitIntoChunks ''a b c'' 5 5 = Some [''a b c'']"
  by (simp add: splitIntoChunks_def tokenize_def is_space_def split_ws.simps
      chunkLoop.simps slice_def)

text \<open>
  Claim C3, as the code has it. For a text whose tokens are \<open>t1\<close> to \<open>t25\<close>, with
  \<open>chunkSize = 10\<close> and \<open>overlap = 3\<close>, \<^verbatim>\<open>splitIntoChunks\<close> returns exactly four chunks:
  tokens 1 to 10 without markers; tokens 8 to 17 with 8 to 10 between the markers; tokens 15
  to 24 with 15 to 17 between the markers; and tokens 22 to 25 with 22 to 24 between the
  markers and token 25 plain. The last window has four tokens, more than the overlap, so
  it is marked like the others.
\<close>

theorem example_t25:
  assumes "tokenize text = tokens25"
  shows "splitIntoChunks text 10 3 = Some
     [''t1 t2 t3 t4 t5 t6 t7 t8 t9 t10'',
      ''<OVERLAP_START> t8 t9 t10 <OVERLAP_END> t11 t12 t13 t14 t15 t16 t17'',
      ''<OVERLAP_START> t15 t16 t17 <OVERLAP_END> t18 t19 t20 t21 t22 t23 t24'',
      ''<OVERLAP_START> t22 t23 t24 <OVERLAP_END> t25'']"
  unfolding splitIntoChunks_def assms by (rule chunkLoop_tokens25)

theorem example_t25_witness:
  "tokenize ''t1 t2 t3 t4 t5 t6 t7 t8 t9 t10 t11 t12 t13 t14 t15 t16 t17 t18 t19 t20 t21 t22 t23 t24 t25'' = tokens25 \<and>
   splitIntoChunks ''t1 t2 t3 t4 t5 t6 t7 t8 t9 t10 t11 t12 t13 t14 t15 t16 t17 t18 t19 t20 t21 t22 t23 t24 t25'' 10 3 = Some
     [''t1 t2 t3 t4 t5 t6 t7 t8 t9 t10'',
      ''<OVERLAP_START> t8 t9 t10 <OVERLAP_END> t11 t12 t13 t14 t15 t16 t17'',
      ''<OVERLAP_START> t15 t16 t17 <OVERLAP_END> t18 t19 t20 t21 t22 t23 t24'',
      ''<OVERLAP_START> t22 t23 t24 <OVERLAP_END> t25'']"
  using example_t25 [OF tokenize_text25] tokenize_text25 by (rule conjI [rotated])

text \<open>
  Claim C3 as stated fails: the fourth chunk is not the unmarked text of tokens 22 to 25.
\<close>

theorem example_t25_counterexample:
  "splitIntoChunks ''t1 t2 t3 t4 t5 t6 t7 t8 t9 t10 t11 t12 t13 t14 t15 t16 t17 t18 t19 t20 t21 t22 t23 t24 t25'' 10 3 \<noteq> Some
     [''t1 t2 t3 t4 t5 t6 t7 t8 t9 t10'',
      ''<OVERLAP_START> t8 t9 t10 <OVERLAP_END> t11 t12 t13 t14 t15 t16 t17'',
      ''<OVERLAP_START> t15 t16 t17 <OVERLAP_END> t18 t19 t20 t21 t22 t23 t24'',
      ''t22 t23 t24 t25'']"
  unfolding splitIntoChunks_def tokenize_text25 chunkLoop_tokens25 by simp

text \<open>
  Claim C10. For \<open>chunkSize > 0\<close> and \<open>0 \<le> overlap < chunkSize\<close>, every chunk after the first
  is the text of its token window with the literals \<^verbatim>\<open><OVERLAP_START>\<close> and
  \<^verbatim>\<open><OVERLAP_END>\<close> added, so \<^verbatim>\<open>countTokens\<close> of it is the window's token count plus 2,
  at most \<open>chunkSize + 2\<close>; every chunk strictly between the first and the last reaches
  \<open>chunkSize + 2\<close>; the first chunk has the token count of its window, at most
  \<open>chunkSize\<close>.
\<close>

theorem marked_chunk_token_count:
  assumes "0 < chunkSize" "0 \<le> overlap" "overlap < chunkSize"
  shows "\<exists>chunks. splitIntoChunks text chunkSize overlap = Some chunks \<and>
     (let ws = windowsFrom (tokenize text) (nat chunkSize) (nat chunkSize - nat overlap) 0
      in list_all2 (\<lambda>chunk w. chunk = markedChunk (nat overlap) w \<and>
                      countTokens chunk = length w + 2 \<and>
                      countTokens chunk \<le> nat chunkSize + 2) (tl chunks) (tl ws) \<and>
         (\<forall>chunk \<in> set (butlast (tl chunks)). countTokens chunk = nat chunkSize + 2) \<and>
         (chunks \<noteq> [] \<longrightarrow> countTokens (hd chunks) = length (hd ws) \<and>
                              countTokens (hd chunks) \<le> nat chunkSize))"
proof -
  let ?cs = "nat chunkSize" and ?ov = "nat overlap"
  let ?ws = "windowsFrom (tokenize text) ?cs (?cs - ?ov) 0"
  have lt: "?ov < ?cs" using assms by simp
  have split: "splitIntoChunks text chunkSize overlap = Some (render ?ov ?ws)"
    using splitIntoChunks_windows [OF assms(2) assms(3)] .
  have props: "\<forall>w \<in> set ?ws. length w \<le> ?cs \<and> set w \<subseteq> set (tokenize text)"
    using windowsFrom_props [OF lt, of 0 "tokenize text"] by simp
  have tok: "\<forall>w \<in> set ?ws. \<forall>t \<in> set w. is_token t"
    using props tokenize_is_token by blast
  have a: "list_all2 (\<lambda>chunk w. chunk = markedChunk ?ov w \<and>
                      countTokens chunk = length w + 2 \<and>
                      countTokens chunk \<le> ?cs + 2) (tl (render ?ov ?ws)) (tl ?ws)"
    unfolding render_tl list_all2_map1
  proof (rule list.rel_refl_strong)
    fix w assume "w \<in> set (tl ?ws)"
    then have "w \<in> set ?ws" by (rule in_set_tl)
    with props tok have "length w \<le> ?cs" "\<forall>t \<in> set w. is_token t" by auto
    then show "markedChunk ?ov w = markedChunk ?ov w \<and>
        countTokens (markedChunk ?ov w) = length w + 2 \<and>
        countTokens (markedChunk ?ov w) \<le> ?cs + 2"
      by (simp add: countTokens_markedChunk)
  qed
  have b: "\<forall>chunk \<in> set (butlast (tl (render ?ov ?ws))). countTokens chunk = ?cs + 2"
  proof
    fix chunk assume "chunk \<in> set (butlast (tl (render ?ov ?ws)))"
    then have "chunk \<in> set (map (markedChunk ?ov) (butlast (tl ?ws)))"
      by (simp add: render_tl map_butlast)
    then obtain w where w: "w \<in> set (butlast (tl ?ws))" "chunk = markedChunk ?ov w" by auto
    have "butlast (tl ?ws) = tl (butlast ?ws)" by (simp add: butlast_tl)
    with w(1) have "w \<in> set (tl (butlast ?ws))" by simp
    then have wb: "w \<in> set (butlast ?ws)" by (rule in_set_tl)
    then have "w \<in> set ?ws" by (rule in_set_butlastD)
    with tok have "\<forall>t \<in> set w. is_token t" by auto
    moreover have "length w = ?cs" using windowsFrom_butlast wb by blast
    ultimately show "countTokens chunk = ?cs + 2"
      unfolding w(2) by (simp add: countTokens_markedChunk)
  qed
  have c: "render ?ov ?ws \<noteq> [] \<longrightarrow> countTokens (hd (render ?ov ?ws)) = length (hd ?ws) \<and>
                              countTokens (hd (render ?ov ?ws)) \<le> ?cs"
  proof
    assume "render ?ov ?ws \<noteq> []"
    then have ne: "?ws \<noteq> []" by (simp add: render_Nil)
    then have "hd ?ws \<in> set ?ws" by simp
    with props tok have "length (hd ?ws) \<le> ?cs" "\<forall>t \<in> set (hd ?ws). is_token t" by auto
    then show "countTokens (hd (render ?ov ?ws)) = length (hd ?ws) \<and>
                              countTokens (hd (render ?ov ?ws)) \<le> ?cs"
      by (simp add: render_hd [OF ne] countTokens_tokenize tokenize_join)
  qed
  show ?thesis
    unfolding Let_def split using a b c by blast
qed

theorem marked_chunk_token_count_witness:
  "(0::int) < 2 \<and> (0::int) \<le> 1 \<and> (1::int) < 2 \<and>
   (\<exists>chunks. splitIntoChunks ''a b c d'' 2 1 = Some chunks \<and>
     (let ws = windowsFrom (tokenize ''a b c d'') (nat 2) (nat 2 - nat 1) 0
      in list_all2 (\<lambda>chunk w. chunk = markedChunk (nat 1) w \<and>
                      countTokens chunk = length w + 2 \<and>
                      countTokens chunk \<le> nat 2 + 2) (tl chunks) (tl ws) \<and>
         (\<forall>chunk \<in> set (butlast (tl chunks)). countTokens chunk = nat 2 + 2) \<and>
         (chunks \<noteq> [] \<longrightarrow> countTokens (hd chunks) = length (hd ws) \<and>
                              countTokens (hd chunks) \<le> nat 2))) \<and>
   splitIntoChunks ''a b c d'' 2 1 =
     Some [''a b'', ''<OVERLAP_START> b <OVERLAP_END> c'', ''<OVERLAP_START> c <OVERLAP_END> d''] \<and>
   countTokens ''<OVERLAP_START> b <OVERLAP_END> c'' = 2 + 2"
proof -
  have h: "(0::int) < 2" "(0::int) \<le> 1" "(1::int) < 2" by simp_all
  have s: "splitIntoChunks ''a b c d'' 2 1 =
     Some [''a b'', ''<OVERLAP_START> b <OVERLAP_END> c'', ''<OVERLAP_START> c <OVERLAP_END> d'']"
    by (simp add: splitIntoChunks_def tokenize_def is_space_def split_ws.simps
        chunkLoop.simps slice_def)
  have c: "countTokens ''<OVERLAP_START> b <OVERLAP_END> c'' = 2 + 2"
    by (simp add: countTokens_def is_space_def split_ws.simps)
  from marked_chunk_token_count [OF h, of "''a b c d''"] h s c show ?thesis by blast
qed

subsection \<open>The re-indexer\<close>

text \<open>
  Claim C4. For every group whose files can all be read, parse and hold a \<^verbatim>\<open>chunks\<close>
  array of objects, the re-indexer takes the files in ascending order of their numeric
  index, appends their chunk arrays in that order (all chunks of file \<^verbatim>\<open>-1\<close> before all of
  file \<^verbatim>\<open>-2\<close>) and sets the \<^verbatim>\<open>chunkNumber\<close> of the chunk at position \<open>i\<close> of the
  flattened list to \<open>i + 1\<close>: the numbers are 1 to \<open>N\<close>, whatever numbers the input held.
\<close>

theorem reindex_sorts_flattens_renumbers:
  assumes "\<forall>f \<in> set files. wellFormed e parse f"
  shows "let sorted_files = sort_key chunkNum files;
             flat = concat (map (fileChunks e parse) sorted_files)
         in sorted (map chunkNum sorted_files) \<and> mset sorted_files = mset files \<and>
            mergeGroup e parse files st = Inr (map (\<lambda>(i, c). setChunkNumber (int i + 1) c) (List.enumerate 0 flat), st) \<and>
            map chunkNumberOf (map (\<lambda>(i, c). setChunkNumber (int i + 1) c) (List.enumerate 0 flat)) =
              map (\<lambda>n. Some (JNum (int n))) [1..<Suc (length flat)]"
proof -
  let ?sorted = "sort_key chunkNum files"
  let ?flat = "concat (map (fileChunks e parse) ?sorted)"
  have "\<forall>f \<in> set ?sorted. chunksOf e parse f \<noteq> None"
    using assms by (auto simp: wellFormed_def split: option.splits)
  from mergeFiles_wellFormed [OF this, of "[]" st]
  have "mergeGroup e parse files st = Inr (reindexChunks ?flat, st)"
    by (simp add: mergeGroup_def)
  moreover have "reindexChunks ?flat = map (\<lambda>(i, c). setChunkNumber (int i + 1) c) (List.enumerate 0 ?flat)"
    by (simp add: reindexChunks_def setChunkNumber_def)
  ultimately show ?thesis
    using chunkNumbers_reindexChunks [of ?flat] by (simp add: Let_def)
qed

theorem reindex_sorts_flattens_renumbers_witness:
  "list_all (wellFormed envExample parseExample) filesExample \<and>
   sort_key chunkNum filesExample = rev filesExample \<and>
   mergeGroup envExample parseExample filesExample initial =
     Inr ([chunkA, chunkB, chunkC3], initial)"
proof -
  have wf: "\<forall>f \<in> set filesExample. wellFormed envExample parseExample f"
    by (simp add: filesExample_def wellFormed_def chunksOf_example1 chunksOf_example2
        chunkA_def chunkB_def chunkC_def)
  have s: "sort_key chunkNum filesExample = rev filesExample"
    by (simp add: filesExample_def)
  have flat: "concat (map (fileChunks envExample parseExample) (sort_key chunkNum filesExample)) =
      [chunkA, chunkB, chunkC]"
    unfolding s
    by (simp add: filesExample_def fileChunks_def chunksOf_example1 chunksOf_example2)
  have r: "map (\<lambda>(i, c). setChunkNumber (int i + 1) c) (List.enumerate 0 [chunkA, chunkB, chunkC]) =
      [chunkA, chunkB, chunkC3]"
    by (simp add: setChunkNumber_def chunkA_def chunkB_def chunkC_def chunkC3_def)
  from reindex_sorts_flattens_renumbers [OF wf, of initial]
  have "mergeGroup envExample parseExample filesExample initial =
     Inr ([chunkA, chunkB, chunkC3], initial)"
    unfolding Let_def flat r by simp
  with wf s show ?thesis by (simp add: list_all_iff)
qed

text \<open>
  Claim C5. For a group of one file whose chunks are objects already numbered 1 to \<open>k\<close>,
  the re-indexer returns the same chunk list: every chunk with its fields, their order
  and its \<^verbatim>\<open>chunkNumber\<close> unchanged.
\<close>

theorem reindex_idempotent:
  assumes "chunksOf e parse f = Some chunks"
    and "list_all is_object chunks"
    and "map chunkNumberOf chunks = map (\<lambda>n. Some (JNum (int n))) [1..<Suc (length chunks)]"
  shows "mergeGroup e parse [f] st = Inr (chunks, st)"
proof -
  have "\<forall>g \<in> set [f]. chunksOf e parse g \<noteq> None" using assms(1) by simp
  from mergeFiles_wellFormed [OF this, of "[]" st] assms(1)
  have "mergeGroup e parse [f] st = Inr (reindexChunks chunks, st)"
    by (simp add: mergeGroup_def fileChunks_def)
  then show ?thesis using reindexChunks_numbered [OF assms(2) assms(3)] by simp
qed

theorem reindex_idempotent_witness:
  "chunksOf envExample parseExample \<lparr>fileName = ''doc.pdf-1.json'', chunkNum = 1\<rparr> =
     Some [chunkA, chunkB] \<and>
   list_all is_object [chunkA, chunkB] \<and>
   map chunkNumberOf [chunkA, chunkB] =
     map (\<lambda>n. Some (JNum (int n))) [1..<Suc (length [chunkA, chunkB])] \<and>
   mergeGroup envExample parseExample [\<lparr>fileName = ''doc.pdf-1.json'', chunkNum = 1\<rparr>] initial =
     Inr ([chunkA, chunkB], initial)"
proof -
  have o: "list_all is_object [chunkA, chunkB]"
    by (simp add: chunkA_def chunkB_def)
  have n: "map chunkNumberOf [chunkA, chunkB] =
     map (\<lambda>n. Some (JNum (int n))) [1..<Suc (length [chunkA, chunkB])]"
    by (simp add: chunkNumberOf_def chunkA_def chunkB_def upt_rec)
  from reindex_idempotent [OF chunksOf_example1 [of 1] o n, where st = initial]
    chunksOf_example1 [of 1] o n
  show ?thesis by blast
qed

text \<open>
  Claim C8 at a failing input. A file whose content is \<^verbatim>\<open>null\<close> parses, and reading
  \<^verbatim>\<open>jsonData.chunks\<close> then throws outside the \<^verbatim>\<open>try\<close> blocks: the run ends with an
  uncaught \<^verbatim>\<open>TypeError\<close>, with nothing written and nothing recorded, while the same
  folder without that file is merged and written.
\<close>

theorem null_record_aborts_run:
  "reindexMain envBad parseExample = Inl (TypeError, initial) \<and>
   (\<exists>st. reindexMain envExample parseExample = Inr st \<and>
      written st ''doc.pdf.txt'' = Some (stringify2 finalExample))"
proof -
  have rd: "readdir envBad = Some [''bad-1.json'', ''doc.pdf-2.json'', ''doc.pdf-1.json'']"
    by (simp add: envBad_def)
  have rf: "readFile envBad ''bad-1.json'' = Some ''null''"
    by (simp add: envBad_def envExample_def)
  have "mergeFiles envBad parseExample [\<lparr>fileName = ''bad-1.json'', chunkNum = 1\<rparr>] ([], initial) =
      Inl (TypeError, initial)"
    by (simp add: rf parseExample_null)
  then have "mergeGroup envBad parseExample [\<lparr>fileName = ''bad-1.json'', chunkNum = 1\<rparr>] initial =
      Inl (TypeError, initial)"
    by (simp add: mergeGroup_def)
  then have "reindexGroups envBad parseExample
      [(''bad'', [\<lparr>fileName = ''bad-1.json'', chunkNum = 1\<rparr>]), (''doc.pdf'', filesExample)] initial =
      Inl (TypeError, initial)"
    by simp
  then have "reindexMain envBad parseExample = Inl (TypeError, initial)"
    by (simp only: reindexMain_def rd option.case groupJsonFiles_bad prod.case Let_def)
  then show ?thesis by (simp add: reindexMain_example)
qed

subsection \<open>The stitcher and the recorded lengths\<close>

text \<open>
  Claim C6. For every group whose chunk indices are pairwise distinct, the stitcher takes
  the chunks in ascending numeric order of the index, whatever order they are presented
  in: the result is the one of stitching the ascending arrangement of the group, so the
  file written holds the header, a blank line and the readable chunks in ascending order
  of the index, and every other presentation order of the group gives the same file, the
  same recorded length and the same console. Index 10 comes after index 2.
\<close>

theorem stitch_ascending_order:
  assumes "distinct (map chunk files)"
    and "mset ordered = mset files" "sorted (map chunk ordered)"
    and "mset files2 = mset files"
  shows "stitchGroup e (baseName, files) st = stitchedInOrder e baseName ordered st \<and>
         (writeFile e (outputFileName baseName) \<longrightarrow>
            written (stitchGroup e (baseName, files) st) (outputFileName baseName) =
              Some (parsedName baseName @ [newline, newline] @ concat (map (chunkText e) ordered))) \<and>
         stitchGroup e (baseName, files2) st = stitchGroup e (baseName, files) st"
proof -
  have s1: "sort_key chunk files = ordered"
    using assms(1) assms(2) assms(3) by (rule sort_key_unique)
  have "mset (map chunk files2) = mset (map chunk files)" using assms(4) by simp
  then have "distinct (map chunk files2)"
    using assms(1) by (metis mset_eq_imp_distinct_iff)
  moreover have "mset ordered = mset files2" using assms(2) assms(4) by simp
  ultimately have s2: "sort_key chunk files2 = ordered"
    using assms(3) by (rule sort_key_unique)
  have a: "stitchGroup e (baseName, files) st = stitchedInOrder e baseName ordered st"
    by (simp only: stitchGroup_sorted s1)
  have b: "stitchGroup e (baseName, files2) st = stitchedInOrder e baseName ordered st"
    by (simp only: stitchGroup_sorted s2)
  have c: "writeFile e (outputFileName baseName) \<longrightarrow>
      written (stitchedInOrder e baseName ordered st) (outputFileName baseName) =
        Some (parsedName baseName @ [newline, newline] @ concat (map (chunkText e) ordered))"
    by (simp add: stitchedInOrder_def Let_def)
  show ?thesis unfolding a b using c by simp
qed

theorem stitch_ascending_order_witness:
  "distinct (map chunk files312) \<and> mset files123 = mset files312 \<and>
   sorted (map chunk files123) \<and> mset files2310 = mset files312 \<and>
   writeFile env6 (outputFileName ''d'') \<and>
   stitchGroup env6 (''d'', files312) initial = stitchedInOrder env6 ''d'' files123 initial \<and>
   stitchGroup env6 (''d'', files2310) initial = stitchGroup env6 (''d'', files312) initial \<and>
   stitchMain env6 = stitchGroup env6 (''d'', files312) initial \<and>
   written (stitchMain env6) ''d.txt'' =
     Some (''d'' @ [newline, newline] @ ''d-1'' @ [newline] @ ''d-2'' @ [newline] @
           ''d-3'' @ [newline] @ ''d-10'' @ [newline])"
proof -
  have d: "distinct (map chunk files312)" by (simp add: files312_def)
  have m: "mset files123 = mset files312" by (simp add: files312_def files123_def)
  have s: "sorted (map chunk files123)" by (simp add: files123_def)
  have m2: "mset files2310 = mset files312" by (simp add: files312_def files2310_def)
  have o: "outputFileName ''d'' = ''d.txt''"
    by (simp add: outputFileName_def endsWith_def toLowerCase_def lowerChar_def)
  have w: "writeFile env6 (outputFileName ''d'')" by (simp add: env6_def)
  have rd: "readdir env6 = Some [''d-10.txt'', ''d-3.txt'', ''d-1.txt'', ''d-2.txt'']"
    by (simp add: env6_def)
  have "stitchMain env6 = fold (stitchGroup env6) [(''d'', files312)] initial"
    by (simp only: stitchMain_def rd option.case groupChunkFiles_env6 prod.case Let_def)
  then have main: "stitchMain env6 = stitchGroup env6 (''d'', files312) initial" by simp
  have t: "parsedName ''d'' @ [newline, newline] @ concat (map (chunkText env6) files123) =
      ''d'' @ [newline, newline] @ ''d-1'' @ [newline] @ ''d-2'' @ [newline] @
           ''d-3'' @ [newline] @ ''d-10'' @ [newline]"
    by (simp add: files123_def chunkText_def env6_def parsedName_def)
  note inst = stitch_ascending_order [OF d m s m2, of env6 "''d''" initial]
  from inst w have "written (stitchGroup env6 (''d'', files312) initial) (outputFileName ''d'') =
      Some (parsedName ''d'' @ [newline, newline] @ concat (map (chunkText env6) files123))"
    by blast
  then have wr: "written (stitchMain env6) ''d.txt'' =
     Some (''d'' @ [newline, newline] @ ''d-1'' @ [newline] @ ''d-2'' @ [newline] @
           ''d-3'' @ [newline] @ ''d-10'' @ [newline])"
    by (simp only: main o t)
  from inst d m s m2 w main wr show ?thesis by blast
qed

text \<open>
  Claim C7 at a failing input. The re-indexer run on the two files of the example writes
  the indented serialisation, 206 characters, to \<^verbatim>\<open>doc.pdf.txt\<close> and records 120, the
  length of the compact serialisation, under that name. The recorded length is too small
  for every file the re-indexer writes (lemma \<open>reindexGroup_recorded_shorter\<close>); the
  stitcher records the length of what it writes (lemma \<open>stitchMain_recorded\<close>).
\<close>

theorem recorded_length_not_written_length:
  "\<exists>st. reindexMain envExample parseExample = Inr st \<and>
     written st ''doc.pdf.txt'' = Some (stringify2 finalExample) \<and>
     length (stringify2 finalExample) = 206 \<and>
     stitchMetadata st ''doc.pdf.txt'' = Some 120"
  by (simp add: reindexMain_example length_stringify_example length_stringify2_example)

subsection \<open>Output names\<close>

text \<open>
  Claim C9, as the code has it. The stitcher and the re-indexer name their output alike: a
  base name that ends in \<^verbatim>\<open>.txt\<close>, in any letter case, is used as it is, and every other
  base name gets \<^verbatim>\<open>.txt\<close> appended. Naming a name twice is naming it once, and an output
  name ends in \<^verbatim>\<open>.txt.txt\<close> only when the base name itself did.
\<close>

theorem output_naming:
  "(endsWith (toLowerCase baseName) ''.txt'' \<longrightarrow> outputFileName baseName = baseName) \<and>
   (\<not> endsWith (toLowerCase baseName) ''.txt'' \<longrightarrow> outputFileName baseName = baseName @ ''.txt'') \<and>
   finalFileName baseName = outputFileName baseName \<and>
   outputFileName (outputFileName baseName) = outputFileName baseName \<and>
   (endsWith (outputFileName baseName) ''.txt.txt'' \<longrightarrow> endsWith baseName ''.txt.txt'')"
proof -
  have "finalFileName baseName = outputFileName baseName"
    by (simp add: finalFileName_def outputFileName_def)
  moreover have "endsWith (toLowerCase baseName) ''.txt'' \<longrightarrow> outputFileName baseName = baseName"
    by (simp add: outputFileName_def)
  moreover have "\<not> endsWith (toLowerCase baseName) ''.txt'' \<longrightarrow> outputFileName baseName = baseName @ ''.txt''"
    by (simp add: outputFileName_def)
  ultimately show ?thesis
    using outputFileName_idem [of baseName] outputFileName_double [of baseName] by blast
qed

theorem output_naming_witness:
  "endsWith (toLowerCase ''Doc.TXT'') ''.txt'' \<and> outputFileName ''Doc.TXT'' = ''Doc.TXT'' \<and>
   \<not> endsWith (toLowerCase ''doc.pdf'') ''.txt'' \<and> outputFileName ''doc.pdf'' = ''doc.pdf.txt'' \<and>
   endsWith (outputFileName ''a.txt.txt'') ''.txt.txt'' \<and> endsWith ''a.txt.txt'' ''.txt.txt''"
proof -
  have a: "endsWith (toLowerCase ''Doc.TXT'') ''.txt''"
    by (simp add: endsWith_def toLowerCase_def lowerChar_def char_of_eq_iff)
  have b: "\<not> endsWith (toLowerCase ''doc.pdf'') ''.txt''"
    by (simp add: endsWith_def toLowerCase_def lowerChar_def)
  have c: "endsWith (outputFileName ''a.txt.txt'') ''.txt.txt''"
    by (simp add: outputFileName_def endsWith_def toLowerCase_def lowerChar_def)
  from a b c output_naming [of "''Doc.TXT''"] output_naming [of "''doc.pdf''"]
    output_naming [of "''a.txt.txt''"]
  show ?thesis by simp
qed

text \<open>
  Claim C9 as stated fails: the output name of the base name \<^verbatim>\<open>a.txt.txt\<close> carries the
  double extension.
\<close>

theorem output_naming_counterexample:
  "endsWith (outputFileName ''a.txt.txt'') ''.txt.txt'' \<and>
   endsWith (finalFileName ''a.txt.txt'') ''.txt.txt''"
  by (simp add: outputFileName_def finalFileName_def endsWith_def toLowerCase_def lowerChar_def)

end
